theory Spec2Isabelle
  imports Complex_Main "HOL-Library.Char_ord" "HOL-Library.List_Lexorder" "HOL-Library.Log_Nat" "HOL-Library.Multiset"
begin

section \<open>The asset manager of mc/core/assets.py\<close>

text \<open>
  The development embeds the classes \<^verbatim>\<open>Asset\<close>, \<^verbatim>\<open>AssetGroup\<close>, \<^verbatim>\<open>AssetLoader\<close> and
  \<^verbatim>\<open>AssetManager\<close> of \<^verbatim>\<open>mc/core/assets.py\<close>. Python objects are mutable and shared by
  reference, so an object is named by a reference (a number) and its fields live in a
  store; a method is a function from the store to the store. Exceptions are values of
  the type \<open>error\<close>.
\<close>

subsection \<open>Data\<close>

type_synonym aref = nat  \<comment> \<open>the identity of an \<^verbatim>\<open>Asset\<close> object\<close>
type_synonym gref = nat  \<comment> \<open>the identity of an \<^verbatim>\<open>AssetGroup\<close> object\<close>

datatype error = IndexError | ValueError | ZeroDivisionError | OverflowError

text \<open>
  The values that the code stores in \<^verbatim>\<open>AssetGroup.loading_members\<close> or passes to a
  callback: an asset, a group, or a member tuple \<^verbatim>\<open>(asset, number)\<close>. Tuples compare by
  their components, objects by identity, and a tuple never equals an object.
\<close>

datatype pyobj = ObjAsset aref | ObjGroup gref | ObjTuple aref int

text \<open>
  What a caller passes as \<^verbatim>\<open>callback\<close>: \<^verbatim>\<open>None\<close> (the default, which is not callable) or
  a function of the caller. Such a function is opaque here: calling it is recorded in the
  trace of the store, with its argument, and it is taken to raise nothing and not to call
  back into the asset classes. An asset's callback set also holds the bound method
  \<^verbatim>\<open>_group_member_loaded\<close> of the groups that load it.
\<close>

datatype ucallback = NoCallback | Fun nat

datatype callback = Ext ucallback | GroupMemberLoaded gref

record asset =
  priority :: int
  asset_id :: nat
  callbacks :: "callback list"
  loading :: bool
  loaded :: bool
  unloading :: bool

record asset_group =
  gtype :: string  \<comment> \<open>\<^verbatim>\<open>config['type']\<close>\<close>
  assets :: "(aref \<times> int) list"
  loading_members :: "pyobj list"
  group_callbacks :: "ucallback list"
  group_priority :: "int option"
  last_asset :: "nat option"  \<comment> \<open>the position in \<^verbatim>\<open>assets\<close> of the tuple object \<^verbatim>\<open>_last_asset\<close>\<close>
  asset_sequence :: "aref list"
  assets_sent :: "(aref \<times> int) set"
  total_weights :: int

subsection \<open>AssetGroup: construction and the selection policies\<close>

text \<open>\<^verbatim>\<open>deque.rotate(1)\<close> moves the last element to the front; \<^verbatim>\<open>deque.rotate(-1)\<close> is
  \<^const>\<open>rotate1\<close>.\<close>

definition rotate_right :: "'a list \<Rightarrow> 'a list" where
  "rotate_right xs = (if xs = [] then [] else last xs # butlast xs)"

text \<open>\<^verbatim>\<open>[asset] * number\<close> is the empty list when \<^verbatim>\<open>number\<close> is not positive.\<close>

definition expand :: "(aref \<times> int) list \<Rightarrow> aref list" where
  "expand members = concat (map (\<lambda>(a, number). replicate (nat number) a) members)"

definition configure_return_asset :: "asset_group \<Rightarrow> asset_group" where
  "configure_return_asset g =
     (let g1 = g\<lparr>total_weights := sum_list (map snd (assets g))\<rparr>
      in if gtype g1 = ''sequence''
         then g1\<lparr>asset_sequence := rotate_right (asset_sequence g1 @ expand (assets g1))\<rparr>
         else g1)"

text \<open>
  \<^verbatim>\<open>AssetGroup.__init__\<close>, from the type of the configuration (\<^verbatim>\<open>'sequence'\<close> when the
  configuration has none) and the members that the configuration names, already looked up.
\<close>

definition AssetGroup_init :: "string option \<Rightarrow> (aref \<times> int) list \<Rightarrow> asset_group" where
  "AssetGroup_init ty members =
     configure_return_asset
       \<lparr>gtype = (case ty of None \<Rightarrow> ''sequence'' | Some t \<Rightarrow> t),
        assets = members,
        loading_members = [],
        group_callbacks = [],
        group_priority = None,
        last_asset = None,
        asset_sequence = [],
        assets_sent = {},
        total_weights = 0\<rparr>"

text \<open>
  The loop of \<^verbatim>\<open>_pick_weighed_random\<close>: \<open>weight\<close> reads \<^verbatim>\<open>asset[1]\<close>, and \<open>None\<close> says
  that the loop ended without returning.
\<close>

fun walk :: "('a \<Rightarrow> int) \<Rightarrow> int \<Rightarrow> int \<Rightarrow> 'a list \<Rightarrow> 'a option" where
  "walk weight v index_value [] = None"
| "walk weight v index_value (asset # rest) =
     (if index_value \<ge> v then Some asset
      else walk weight v (index_value + weight asset) rest)"

text \<open>
  \<^verbatim>\<open>_pick_weighed_random\<close>. The draw \<open>v\<close> is the value that
  \<^verbatim>\<open>random.randint(1, self._total_weights)\<close> returned; \<^verbatim>\<open>randint\<close> raises \<^verbatim>\<open>ValueError\<close> on an
  empty range, and \<^verbatim>\<open>assets[0]\<close> raises \<^verbatim>\<open>IndexError\<close> on an empty list.
\<close>

definition pick_weighed_random ::
  "('a \<Rightarrow> int) \<Rightarrow> int \<Rightarrow> 'a list \<Rightarrow> int \<Rightarrow> error + 'a" where
  "pick_weighed_random weight total_w candidates v =
     (if total_w < 1 then Inl ValueError
      else case candidates of
             [] \<Rightarrow> Inl IndexError
           | first # _ \<Rightarrow>
               (case walk weight v (weight first) candidates of
                  Some asset \<Rightarrow> Inr asset
                | None \<Rightarrow> Inr (last candidates)))"

definition get_random_asset :: "asset_group \<Rightarrow> int \<Rightarrow> (error + aref) \<times> asset_group" where
  "get_random_asset g v =
     (case pick_weighed_random snd (total_weights g) (assets g) v of
        Inl e \<Rightarrow> (Inl e, g)
      | Inr x \<Rightarrow> (Inr (fst x), g))"

definition get_sequence_asset :: "asset_group \<Rightarrow> (error + aref) \<times> asset_group" where
  "get_sequence_asset g =
     (let g1 = g\<lparr>asset_sequence := rotate1 (asset_sequence g)\<rparr>
      in case asset_sequence g1 of
           [] \<Rightarrow> (Inl IndexError, g1)
         | a # _ \<Rightarrow> (Inr a, g1))"

text \<open>
  \<^verbatim>\<open>x is not self._last_asset\<close> compares tuple objects by identity. Every entry of
  \<^verbatim>\<open>self.assets\<close> is a tuple object of its own, so the identity of an entry is its position.
\<close>

definition other_members :: "asset_group \<Rightarrow> (nat \<times> aref \<times> int) list" where
  "other_members g =
     filter (\<lambda>(i, x). Some i \<noteq> last_asset g) (zip [0 ..< length (assets g)] (assets g))"

definition get_random_force_next_asset ::
  "asset_group \<Rightarrow> int \<Rightarrow> (error + aref) \<times> asset_group" where
  "get_random_force_next_asset g v =
     (let g1 = g\<lparr>total_weights := sum_list (map (\<lambda>(i, x). snd x) (other_members g))\<rparr>
      in case pick_weighed_random (\<lambda>(i, x). snd x) (total_weights g1) (other_members g1) v of
           Inl e \<Rightarrow> (Inl e, g1)
         | Inr (i, x) \<Rightarrow> (Inr (fst x), g1\<lparr>last_asset := Some i\<rparr>))"

definition get_random_force_all_asset ::
  "asset_group \<Rightarrow> int \<Rightarrow> (error + aref) \<times> asset_group" where
  "get_random_force_all_asset g v =
     (let g1 = (if card (assets_sent g) = length (assets g) then g\<lparr>assets_sent := {}\<rparr> else g)
      in case pick_weighed_random snd (total_weights g1)
                (filter (\<lambda>x. x \<notin> assets_sent g1) (assets g1)) v of
           Inl e \<Rightarrow> (Inl e, g1)
         | Inr x \<Rightarrow> (Inr (fst x), g1\<lparr>assets_sent := insert x (assets_sent g1)\<rparr>))"

text \<open>
  The property \<^verbatim>\<open>AssetGroup.asset\<close>: the result is \<open>None\<close> when the type is none of the
  four policies, as the Python falls off the end of the \<^verbatim>\<open>if\<close> chain.
\<close>

definition returned :: "(error + aref) \<times> asset_group \<Rightarrow> (error + aref option) \<times> asset_group" where
  "returned r = (map_sum id Some (fst r), snd r)"

definition asset :: "asset_group \<Rightarrow> int \<Rightarrow> (error + aref option) \<times> asset_group" where
  "asset g v =
     (if gtype g = ''random'' then returned (get_random_asset g v)
      else if gtype g = ''sequence'' then returned (get_sequence_asset g)
      else if gtype g = ''random_force_next'' then returned (get_random_force_next_asset g v)
      else if gtype g = ''random_force_all'' then returned (get_random_force_all_asset g v)
      else (Inr None, g))"

text \<open>Successive reads of the property, one draw for each; the results in order, and the
  group after the last read.\<close>

fun reads :: "asset_group \<Rightarrow> int list \<Rightarrow> (error + aref option) list \<times> asset_group" where
  "reads g [] = ([], g)"
| "reads g (v # vs) =
     (let (r, g1) = asset g v; (rs, g2) = reads g1 vs in (r # rs, g2))"

subsection \<open>The store\<close>

text \<open>
  The fields of \<^verbatim>\<open>AssetManager\<close> that the loading pipeline uses. \<^verbatim>\<open>loader_queue\<close> is a
  \<^verbatim>\<open>queue.PriorityQueue\<close>, kept here as the list that holds its heap;
  \<^verbatim>\<open>loaded_queue\<close> is a first-in first-out \<^verbatim>\<open>queue.Queue\<close>.
\<close>

record manager =
  num_assets_to_load :: int
  num_assets_loaded :: int
  num_bcp_assets_to_load :: int
  num_bcp_assets_loaded :: int
  num_bcb_assets_remaining :: int
  loader_queue :: "aref list"
  loaded_queue :: "aref list"
  loaded_watcher :: bool

text \<open>
  The store: the assets and the groups by reference, the manager, the local variable
  \<^verbatim>\<open>asset\<close> of the loader thread between its \<^verbatim>\<open>get\<close> and its \<^verbatim>\<open>put\<close>, and the trace of
  the calls of the callers' callbacks, each with its argument.
\<close>

record world =
  heap :: "aref \<Rightarrow> asset"
  groups :: "gref \<Rightarrow> asset_group"
  mgr :: manager
  in_flight :: "aref option"
  trace :: "(nat \<times> pyobj) list"

definition upd_asset :: "aref \<Rightarrow> (asset \<Rightarrow> asset) \<Rightarrow> world \<Rightarrow> world" where
  "upd_asset a f w = w\<lparr>heap := (heap w)(a := f (heap w a))\<rparr>"

definition upd_group :: "gref \<Rightarrow> (asset_group \<Rightarrow> asset_group) \<Rightarrow> world \<Rightarrow> world" where
  "upd_group g f w = w\<lparr>groups := (groups w)(g := f (groups w g))\<rparr>"

subsection \<open>Asset\<close>

text \<open>
  \<^verbatim>\<open>Asset.__init__\<close> with \<^verbatim>\<open>Asset._get_id\<close>: the class counter \<^verbatim>\<open>_next_id\<close> is passed in
  and returned incremented; \<open>prio\<close> is \<^verbatim>\<open>config.get('priority', 0)\<close>.
\<close>

definition Asset_init :: "nat \<Rightarrow> int \<Rightarrow> asset \<times> nat" where
  "Asset_init next_id prio =
     (\<lparr>priority = prio, asset_id = next_id + 1, callbacks = [],
       loading = False, loaded = False, unloading = False\<rparr>,
      next_id + 1)"

text \<open>\<^verbatim>\<open>"%s" % n\<close> for an integer \<open>n\<close>: its decimal digits, after a minus sign when it is
  negative.\<close>

fun digits :: "nat \<Rightarrow> string" where
  "digits n =
     (if n < 10 then [''0123456789'' ! n]
      else digits (n div 10) @ [''0123456789'' ! (n mod 10)])"

declare digits.simps [simp del]

definition str_int :: "int \<Rightarrow> string" where
  "str_int i = (if i < 0 then CHR ''-'' # digits (nat (- i)) else digits (nat i))"

text \<open>
  \<^verbatim>\<open>Asset.__lt__\<close>: the two formatted strings are compared with \<^verbatim>\<open>>\<close>, and Python orders
  strings lexicographically by code point, which is the order of \<^typ>\<open>string\<close> here.
\<close>

definition Asset_lt :: "asset \<Rightarrow> asset \<Rightarrow> bool" where
  "Asset_lt self other =
     (str_int (priority self) @ '', '' @ str_int (int (asset_id self))
        > str_int (priority other) @ '', '' @ str_int (int (asset_id other)))"

text \<open>
  The callback sets are lists without duplicates: \<^verbatim>\<open>add\<close> is \<^const>\<open>List.insert\<close>,
  \<^verbatim>\<open>discard\<close> is \<^const>\<open>removeAll\<close>, and a loop over the set follows the list.
  \<^verbatim>\<open>if callable(callback): callback(arg)\<close> skips \<^verbatim>\<open>None\<close>.
\<close>

definition call_ucallback :: "ucallback \<Rightarrow> pyobj \<Rightarrow> world \<Rightarrow> world" where
  "call_ucallback cb arg w =
     (case cb of NoCallback \<Rightarrow> w | Fun k \<Rightarrow> w\<lparr>trace := trace w @ [(k, arg)]\<rparr>)"

definition AssetGroup_call_callbacks :: "gref \<Rightarrow> world \<Rightarrow> world" where
  "AssetGroup_call_callbacks g w =
     upd_group g (\<lambda>x. x\<lparr>group_callbacks := []\<rparr>)
       (fold (\<lambda>cb. call_ucallback cb (ObjGroup g)) (group_callbacks (groups w g)) w)"

definition group_member_loaded :: "gref \<Rightarrow> pyobj \<Rightarrow> world \<Rightarrow> world" where
  "group_member_loaded g arg w =
     (let w1 = upd_group g (\<lambda>x. x\<lparr>loading_members := removeAll arg (loading_members x)\<rparr>) w
      in if loading_members (groups w1 g) = [] then AssetGroup_call_callbacks g w1 else w1)"

definition call_callback :: "callback \<Rightarrow> aref \<Rightarrow> world \<Rightarrow> world" where
  "call_callback cb a w =
     (case cb of
        Ext u \<Rightarrow> call_ucallback u (ObjAsset a) w
      | GroupMemberLoaded g \<Rightarrow> group_member_loaded g (ObjAsset a) w)"

definition Asset_call_callbacks :: "aref \<Rightarrow> world \<Rightarrow> world" where
  "Asset_call_callbacks a w =
     upd_asset a (\<lambda>x. x\<lparr>callbacks := []\<rparr>)
       (fold (\<lambda>cb. call_callback cb a) (callbacks (heap w a)) w)"

subsection \<open>The priority queue\<close>

text \<open>
  \<^verbatim>\<open>queue.PriorityQueue\<close> keeps its entries in a list that the module \<^verbatim>\<open>heapq\<close> orders as a
  binary heap: \<^verbatim>\<open>put\<close> is \<^verbatim>\<open>heappush\<close> and \<^verbatim>\<open>get\<close> is \<^verbatim>\<open>heappop\<close>. The entries are
  compared with \<^verbatim>\<open><\<close>, that is \<^verbatim>\<open>Asset.__lt__\<close> on the assets as they are at the time of the
  call; an entry whose priority changes while it is queued stays where it is.

  \<^verbatim>\<open>_siftdown\<close> moves the entry at \<open>pos\<close> towards the root while it is less than its
  parent, down to \<open>startpos\<close>.
\<close>

function siftdown_loop ::
  "(aref \<Rightarrow> asset) \<Rightarrow> aref list \<Rightarrow> nat \<Rightarrow> aref \<Rightarrow> nat \<Rightarrow> aref list" where
  "siftdown_loop h queue startpos newitem pos =
     (if startpos < pos
      then let parentpos = (pos - 1) div 2; parent = queue ! parentpos
           in if Asset_lt (h newitem) (h parent)
              then siftdown_loop h (queue[pos := parent]) startpos newitem parentpos
              else queue[pos := newitem]
      else queue[pos := newitem])"
  by pat_completeness auto
termination
  by (relation "measure (\<lambda>(h, queue, startpos, newitem, pos). pos)") auto

declare siftdown_loop.simps [simp del]

definition siftdown :: "(aref \<Rightarrow> asset) \<Rightarrow> aref list \<Rightarrow> nat \<Rightarrow> nat \<Rightarrow> aref list" where
  "siftdown h queue startpos pos = siftdown_loop h queue startpos (queue ! pos) pos"

text \<open>
  \<^verbatim>\<open>_siftup\<close> moves the smaller child up from \<open>pos\<close> until a leaf is reached, puts the
  entry that was at \<open>pos\<close> there, and sifts it down. Of two children that do not compare
  the right one is taken.
\<close>

function siftup_loop :: "(aref \<Rightarrow> asset) \<Rightarrow> aref list \<Rightarrow> nat \<Rightarrow> aref list \<times> nat" where
  "siftup_loop h queue pos =
     (let endpos = length queue; childpos = 2 * pos + 1
      in if childpos < endpos
         then let rightpos = childpos + 1;
                  smaller = (if rightpos < endpos
                                \<and> \<not> Asset_lt (h (queue ! childpos)) (h (queue ! rightpos))
                             then rightpos else childpos)
              in siftup_loop h (queue[pos := queue ! smaller]) smaller
         else (queue, pos))"
  by pat_completeness auto
termination
  by (relation "measure (\<lambda>(h, queue, pos). length queue - pos)") auto

declare siftup_loop.simps [simp del]

definition siftup :: "(aref \<Rightarrow> asset) \<Rightarrow> aref list \<Rightarrow> nat \<Rightarrow> aref list" where
  "siftup h queue pos =
     (let newitem = queue ! pos; (queue1, pos1) = siftup_loop h queue pos
      in siftdown h (queue1[pos1 := newitem]) pos pos1)"

text \<open>\<^verbatim>\<open>heappush\<close> appends the entry and sifts it down from the end.\<close>

definition heappush :: "(aref \<Rightarrow> asset) \<Rightarrow> aref list \<Rightarrow> aref \<Rightarrow> aref list" where
  "heappush h queue item = siftdown h (queue @ [item]) 0 (length queue)"

text \<open>
  \<^verbatim>\<open>heappop\<close> takes the last entry off the list; if entries are left, it returns the root,
  puts the last entry there and sifts it up. On an empty list \<^verbatim>\<open>pop\<close> raises, and
  \<^verbatim>\<open>PriorityQueue.get\<close> does not get that far (\<open>None\<close>).
\<close>

definition heappop :: "(aref \<Rightarrow> asset) \<Rightarrow> aref list \<Rightarrow> (aref \<times> aref list) option" where
  "heappop h queue =
     (if queue = [] then None
      else let lastelt = last queue; rest = butlast queue
           in if rest \<noteq> [] then Some (rest ! 0, siftup h (rest[0 := lastelt]) 0)
              else Some (lastelt, rest))"

text \<open>
  \<^verbatim>\<open>AssetManager._load_asset\<close>: the counter, then \<^verbatim>\<open>loader_queue.put(asset)\<close>.
  \<^verbatim>\<open>Clock.schedule_interval\<close> belongs to the scheduler, which
  is outside the model; the flag \<^verbatim>\<open>_loaded_watcher\<close> is set in both branches.
\<close>

definition load_asset :: "aref \<Rightarrow> world \<Rightarrow> world" where
  "load_asset a w =
     w\<lparr>mgr := (mgr w)
        \<lparr>num_assets_to_load := num_assets_to_load (mgr w) + 1,
         loader_queue := heappush (heap w) (loader_queue (mgr w)) a,
         loaded_watcher := True\<rparr>\<rparr>"

text \<open>\<^verbatim>\<open>Asset.load\<close>. The branch on \<^verbatim>\<open>self.unloading\<close> is the \<^verbatim>\<open>pass\<close> of the source.\<close>

definition Asset_load :: "aref \<Rightarrow> callback \<Rightarrow> int option \<Rightarrow> world \<Rightarrow> world" where
  "Asset_load a cb prio w =
     (let w1 = (case prio of None \<Rightarrow> w | Some p \<Rightarrow> upd_asset a (\<lambda>x. x\<lparr>priority := p\<rparr>) w);
          w2 = upd_asset a (\<lambda>x. x\<lparr>callbacks := List.insert cb (callbacks x)\<rparr>) w1
      in if loaded (heap w2 a) then Asset_call_callbacks a w2
         else let w3 = (if unloading (heap w2 a) then w2 else w2)
              in load_asset a (upd_asset a (\<lambda>x. x\<lparr>loading := True\<rparr>) w3))"

text \<open>\<^verbatim>\<open>Asset._loaded\<close>.\<close>

definition Asset_loaded :: "aref \<Rightarrow> world \<Rightarrow> world" where
  "Asset_loaded a w =
     Asset_call_callbacks a
       (upd_asset a (\<lambda>x. x\<lparr>loading := False, loaded := True, unloading := False\<rparr>) w)"

text \<open>
  \<^verbatim>\<open>Asset.unload\<close>. The hook \<^verbatim>\<open>_do_unload\<close> of the concrete asset class works on the data
  of that class, which the store does not hold.
\<close>

definition Asset_unload :: "aref \<Rightarrow> world \<Rightarrow> world" where
  "Asset_unload a w =
     (let w1 = upd_asset a (\<lambda>x. x\<lparr>unloading := True, loaded := False, loading := False\<rparr>) w
      in upd_asset a (\<lambda>x. x\<lparr>unloading := False\<rparr>) w1)"

subsection \<open>AssetGroup.load\<close>

definition load_member :: "gref \<Rightarrow> aref \<times> int \<Rightarrow> world \<Rightarrow> world" where
  "load_member g member w =
     (if \<not> loaded (heap w (fst member))
      then Asset_load (fst member) (GroupMemberLoaded g) None
             (upd_group g
                (\<lambda>x. x\<lparr>loading_members :=
                         List.insert (ObjTuple (fst member) (snd member)) (loading_members x)\<rparr>) w)
      else w)"

definition AssetGroup_load :: "gref \<Rightarrow> ucallback \<Rightarrow> int option \<Rightarrow> world \<Rightarrow> world" where
  "AssetGroup_load g cb prio w =
     (let w1 = (case prio of None \<Rightarrow> w
                | Some p \<Rightarrow> upd_group g (\<lambda>x. x\<lparr>group_priority := Some p\<rparr>) w);
          w2 = upd_group g (\<lambda>x. x\<lparr>group_callbacks := List.insert cb (group_callbacks x)\<rparr>) w1;
          w3 = fold (load_member g) (assets (groups w2 g)) w2
      in if loading_members (groups w3 g) = [] then AssetGroup_call_callbacks g w3 else w3)"

subsection \<open>The loader thread\<close>

text \<open>
  One turn of the loop of \<^verbatim>\<open>AssetLoader.run\<close>, in its two halves. \<^verbatim>\<open>get\<close> with a timeout
  leaves \<^verbatim>\<open>asset\<close> at \<^verbatim>\<open>None\<close> on an empty queue. \<^verbatim>\<open>_do_load\<close> is the hook of the concrete
  asset class and changes no field of the store; then the asset goes onto
  \<^verbatim>\<open>loaded_queue\<close>, whether it was decoded or skipped.
\<close>

definition loader_get :: "world \<Rightarrow> world" where
  "loader_get w =
     (case in_flight w of
        Some a \<Rightarrow> w
      | None \<Rightarrow>
          (case heappop (heap w) (loader_queue (mgr w)) of
             None \<Rightarrow> w
           | Some (a, rest) \<Rightarrow> w\<lparr>mgr := (mgr w)\<lparr>loader_queue := rest\<rparr>, in_flight := Some a\<rparr>))"

definition loader_put :: "world \<Rightarrow> world" where
  "loader_put w =
     (case in_flight w of
        None \<Rightarrow> w
      | Some a \<Rightarrow>
          w\<lparr>mgr := (mgr w)\<lparr>loaded_queue := loaded_queue (mgr w) @ [a]\<rparr>, in_flight := None\<rparr>)"

subsection \<open>AssetManager: polling and progress\<close>

definition AssetManager_init :: manager where
  "AssetManager_init =
     \<lparr>num_assets_to_load = 0, num_assets_loaded = 0,
      num_bcp_assets_to_load = 0, num_bcp_assets_loaded = 0, num_bcb_assets_remaining = 0,
      loader_queue = [], loaded_queue = [], loaded_watcher = False\<rparr>"

text \<open>
  The body of the \<^verbatim>\<open>while\<close> loop of \<^verbatim>\<open>_check_loader_status\<close>:
  \<^verbatim>\<open>self.loaded_queue.get()._loaded()\<close>, then the counter. \<^verbatim>\<open>_post_loading_event\<close> posts to
  the event bus of the application and changes no field of the store.
\<close>

definition poll_one :: "world \<Rightarrow> world" where
  "poll_one w =
     (case loaded_queue (mgr w) of
        [] \<Rightarrow> w
      | a # rest \<Rightarrow>
          (let w1 = Asset_loaded a (w\<lparr>mgr := (mgr w)\<lparr>loaded_queue := rest\<rparr>\<rparr>)
           in w1\<lparr>mgr := (mgr w1)\<lparr>num_assets_loaded := num_assets_loaded (mgr w1) + 1\<rparr>\<rparr>))"

text \<open>The \<^verbatim>\<open>if\<close> that ends \<^verbatim>\<open>_check_loader_status\<close>.\<close>

definition poll_check :: "world \<Rightarrow> world" where
  "poll_check w =
     (if num_assets_to_load (mgr w) = num_assets_loaded (mgr w)
      then w\<lparr>mgr := (mgr w)\<lparr>num_assets_loaded := 0, num_assets_to_load := 0,
                             loaded_watcher := False\<rparr>\<rparr>
      else w)"

text \<open>\<^verbatim>\<open>AssetManager._bcp_client_asset_load\<close>.\<close>

definition bcp_client_asset_load :: "int \<Rightarrow> int \<Rightarrow> world \<Rightarrow> world" where
  "bcp_client_asset_load total_n remaining w =
     w\<lparr>mgr := (mgr w)
        \<lparr>num_bcp_assets_loaded := total_n - remaining,
         num_bcp_assets_to_load := total_n,
         num_bcb_assets_remaining := remaining\<rparr>\<rparr>"

text \<open>
  The \<^verbatim>\<open>while not self.loaded_queue.empty()\<close> loop. It ends because a turn takes one
  entry off the queue and the callbacks put none on it.
\<close>

function drain :: "world \<Rightarrow> world" where
  "drain w = (if loaded_queue (mgr w) = [] then w else drain (poll_one w))"
  by pat_completeness auto
termination
proof (relation "measure (\<lambda>w. length (loaded_queue (mgr w)))")
  show "wf (measure (\<lambda>w. length (loaded_queue (mgr w))))"
    by simp
next
  fix w :: world
  assume ne: "loaded_queue (mgr w) \<noteq> []"
  have u: "mgr (call_ucallback cb arg x) = mgr x" for cb arg x
    by (cases cb) (simp_all add: call_ucallback_def)
  have fu: "mgr (fold (\<lambda>cb. call_ucallback cb arg) cbs x) = mgr x" for cbs arg x
    by (induction cbs arbitrary: x) (simp_all add: u)
  have gc: "mgr (AssetGroup_call_callbacks g x) = mgr x" for g x
    by (simp add: AssetGroup_call_callbacks_def upd_group_def fu)
  have gm: "mgr (group_member_loaded g arg x) = mgr x" for g arg x
    by (simp add: group_member_loaded_def Let_def gc) (simp add: upd_group_def)
  have c: "mgr (call_callback cb a x) = mgr x" for cb a x
    by (cases cb) (simp_all add: call_callback_def u gm)
  have fc: "mgr (fold (\<lambda>cb. call_callback cb a) cbs x) = mgr x" for cbs a x
    by (induction cbs arbitrary: x) (simp_all add: c)
  have l: "mgr (Asset_loaded a x) = mgr x" for a x
    by (simp add: Asset_loaded_def Asset_call_callbacks_def upd_asset_def fc)
  from ne obtain a rest where q: "loaded_queue (mgr w) = a # rest"
    by (cases "loaded_queue (mgr w)") auto
  show "(poll_one w, w) \<in> measure (\<lambda>w. length (loaded_queue (mgr w)))"
    by (simp add: poll_one_def q l)
qed

declare drain.simps [simp del]

text \<open>
  \<^verbatim>\<open>AssetManager._check_loader_status\<close>, for a manager that has not been shut down (its
  queues are not \<^verbatim>\<open>None\<close>, so the loop raises no \<^verbatim>\<open>AttributeError\<close>).
\<close>

definition check_loader_status :: "world \<Rightarrow> world" where
  "check_loader_status w = poll_check (drain w)"

subsection \<open>Runs\<close>

text \<open>
  What can happen to the store: the calls of the public methods on the main thread, the
  two halves of a turn of the loader thread, and the poll, both as a whole and in its parts
  (a turn of its loop, its final test), so that a load requested by a callback and a
  \<^verbatim>\<open>put\<close> of the loader thread can fall between two turns of the loop.
\<close>

datatype event =
    Load aref ucallback "int option"
  | Unload aref
  | GroupLoad gref ucallback "int option"
  | BcpClientAssetLoad int int
  | LoaderGet
  | LoaderPut
  | PollOne
  | PollCheck
  | CheckLoaderStatus

fun step :: "event \<Rightarrow> world \<Rightarrow> world" where
  "step (Load a cb prio) w = Asset_load a (Ext cb) prio w"
| "step (Unload a) w = Asset_unload a w"
| "step (GroupLoad g cb prio) w = AssetGroup_load g cb prio w"
| "step (BcpClientAssetLoad total_n remaining) w = bcp_client_asset_load total_n remaining w"
| "step LoaderGet w = loader_get w"
| "step LoaderPut w = loader_put w"
| "step PollOne w = poll_one w"
| "step PollCheck w = poll_check w"
| "step CheckLoaderStatus w = check_loader_status w"

definition run :: "event list \<Rightarrow> world \<Rightarrow> world" where
  "run evs w = fold step evs w"

text \<open>A store right after \<^verbatim>\<open>AssetManager.__init__\<close>: any assets and groups, the counters at
  0, the queues empty, the loader thread idle.\<close>

definition initial :: "world \<Rightarrow> bool" where
  "initial w \<longleftrightarrow> mgr w = AssetManager_init \<and> in_flight w = None"

text \<open>Assets created one after the other, with the priorities of their configurations: the
  reference of an asset is its position, and the class counter gives it its id.\<close>

fun create_assets :: "nat \<Rightarrow> int list \<Rightarrow> asset list" where
  "create_assets next_id [] = []"
| "create_assets next_id (prio # prios) =
     (let (a, n) = Asset_init next_id prio in a # create_assets n prios)"

definition new_world :: "int list \<Rightarrow> (gref \<Rightarrow> asset_group) \<Rightarrow> world" where
  "new_world prios gs =
     \<lparr>heap = (\<lambda>r. if r < length prios then create_assets 0 prios ! r
                   else fst (Asset_init r 0)),
      groups = gs, mgr = AssetManager_init, in_flight = None, trace = []\<rparr>"

subsection \<open>AssetManager.loading_percent\<close>

text \<open>
  The property divides two Python integers with \<^verbatim>\<open>/\<close>, multiplies the quotient by 100
  and rounds: the quotient and the product are floats (IEEE 754 binary64), and \<^verbatim>\<open>round\<close>
  of a float is the nearest integer, the even one of two that are equally near. A float is
  kept here as the rational number it stands for.

  \<open>round_half_even\<close> is Python's \<^verbatim>\<open>round\<close> on one argument.
\<close>

definition round_half_even :: "rat \<Rightarrow> int" where
  "round_half_even x =
     (let f = \<lfloor>x\<rfloor>; d = x - of_int f
      in if d < 1 / 2 then f
         else if 1 / 2 < d then f + 1
         else if even f then f else f + 1)"

text \<open>The binary exponent of a number other than 0: the \<open>e\<close> with
  \<open>2 powi e \<le> \<bar>x\<bar>\<close> and \<open>\<bar>x\<bar> < 2 powi (e + 1)\<close>, from the bit lengths of the numerator and the
  denominator.\<close>

definition ilog2 :: "rat \<Rightarrow> int" where
  "ilog2 x =
     (let (p, q) = quotient_of \<bar>x\<bar>; e = bitlen p - bitlen q
      in if \<bar>x\<bar> < 2 powi e then e - 1 else e)"

text \<open>
  The binary64 value nearest to a rational number, ties to the even significand: the
  significand has 53 bits, the exponent of a normal number is at least \<open>-1022\<close> (below,
  the numbers are the multiples of \<open>2 powi - 1074\<close>), and a result of \<open>2 powi 1024\<close> or more
  is out of range (\<open>None\<close>).
\<close>

definition to_double :: "rat \<Rightarrow> rat option" where
  "to_double x =
     (if x = 0 then Some 0
      else let e = max (ilog2 x) (- 1022);
               ulp = 2 powi (e - 52);
               y = of_int (round_half_even (x / ulp)) * ulp
           in if 1024 \<le> ilog2 y then None else Some y)"

text \<open>
  \<^verbatim>\<open>a / b\<close> on integers: \<^verbatim>\<open>ZeroDivisionError\<close> for \<^verbatim>\<open>b == 0\<close>, the correctly rounded
  quotient otherwise, and \<^verbatim>\<open>OverflowError\<close> when that is too large for a float.
\<close>

definition int_truediv :: "int \<Rightarrow> int \<Rightarrow> error + rat" where
  "int_truediv a b =
     (if b = 0 then Inl ZeroDivisionError
      else case to_double (of_int a / of_int b) of
             None \<Rightarrow> Inl OverflowError
           | Some q \<Rightarrow> Inr q)"

text \<open>
  \<^verbatim>\<open>x * k\<close> for a float and a small integer: the rounded product, or infinity (\<open>None\<close>).
  \<^verbatim>\<open>round\<close> raises \<^verbatim>\<open>OverflowError\<close> on infinity.
\<close>

definition float_mul :: "rat \<Rightarrow> int \<Rightarrow> rat option" where
  "float_mul x k = to_double (x * of_int k)"

definition float_round :: "rat option \<Rightarrow> error + int" where
  "float_round x = (case x of None \<Rightarrow> Inl OverflowError | Some y \<Rightarrow> Inr (round_half_even y))"

text \<open>The expression \<^verbatim>\<open>round(n / d * 100)\<close>, with the exception it may raise.\<close>

definition percent_expr :: "int \<Rightarrow> int \<Rightarrow> error + int" where
  "percent_expr n d =
     (case int_truediv n d of
        Inl e \<Rightarrow> Inl e
      | Inr q \<Rightarrow> float_round (float_mul q 100))"

text \<open>\<^verbatim>\<open>AssetManager.loading_percent\<close>: the expression in a \<^verbatim>\<open>try\<close>, and 100 on
  \<^verbatim>\<open>ZeroDivisionError\<close>; any other exception goes on to the caller.\<close>

definition loading_percent :: "manager \<Rightarrow> error + int" where
  "loading_percent m =
     (case percent_expr (num_assets_loaded m + num_bcp_assets_loaded m)
                        (num_assets_to_load m + num_bcp_assets_to_load m) of
        Inl ZeroDivisionError \<Rightarrow> Inr 100
      | Inl e \<Rightarrow> Inl e
      | Inr r \<Rightarrow> Inr r)"

text \<open>
  The percentage as the specification words it, in exact arithmetic: 100 when the
  denominator is 0, and otherwise the quotient of the two sums times 100, rounded to the
  nearest integer.
\<close>

definition loading_percent_spec :: "manager \<Rightarrow> error + int" where
  "loading_percent_spec m =
     (let n = num_assets_loaded m + num_bcp_assets_loaded m;
          d = num_assets_to_load m + num_bcp_assets_to_load m
      in if d = 0 then Inr 100
         else Inr (round_half_even (of_int n / of_int d * 100)))"


text \<open>The store after \<^verbatim>\<open>Asset.load\<close> has set the priority and added the callback, before
  it looks at \<^verbatim>\<open>self.loaded\<close>.\<close>

definition registered :: "aref \<Rightarrow> callback \<Rightarrow> int option \<Rightarrow> world \<Rightarrow> world" where
  "registered a cb prio w =
     upd_asset a (\<lambda>x. x\<lparr>callbacks := List.insert cb (callbacks x)\<rparr>)
       (case prio of None \<Rightarrow> w | Some p \<Rightarrow> upd_asset a (\<lambda>x. x\<lparr>priority := p\<rparr>) w)"

text \<open>The entries that are on their way through the pipeline: on the loader queue, in the
  hands of the loader thread, or on the loaded queue.\<close>

definition outstanding :: "world \<Rightarrow> int" where
  "outstanding w =
     int (length (loader_queue (mgr w)))
     + (case in_flight w of None \<Rightarrow> 0 | Some a \<Rightarrow> 1)
     + int (length (loaded_queue (mgr w)))"

definition counters_ok :: "world \<Rightarrow> bool" where
  "counters_ok w \<longleftrightarrow>
     0 \<le> num_assets_loaded (mgr w)
     \<and> num_assets_loaded (mgr w) + outstanding w \<le> num_assets_to_load (mgr w)"

text \<open>A store with one asset, no group member, after the asset has been loaded: requested,
  taken and returned by the loader thread, and polled.\<close>

definition loaded_world :: world where
  "loaded_world =
     run [Load 0 NoCallback None, LoaderGet, LoaderPut, CheckLoaderStatus]
       (new_world [0] (\<lambda>g. AssetGroup_init None []))"

text \<open>A store with one asset that is in the middle of \<^verbatim>\<open>unload\<close>.\<close>

definition unloading_world :: world where
  "unloading_world =
     upd_asset 0 (\<lambda>x. x\<lparr>unloading := True\<rparr>) (new_world [0] (\<lambda>g. AssetGroup_init None []))"

lemmas model_defs =
  run_def new_world_def Asset_init_def Asset_lt_def str_int_def digits.simps
  Asset_load_def upd_asset_def load_asset_def loader_get_def AssetManager_init_def
  heappush_def heappop_def siftdown_def siftup_def siftdown_loop.simps siftup_loop.simps
  AssetGroup_init_def configure_return_asset_def expand_def rotate_right_def
  AssetGroup_load_def load_member_def upd_group_def loader_put_def check_loader_status_def
  drain.simps poll_one_def poll_check_def Asset_loaded_def Asset_call_callbacks_def
  call_callback_def group_member_loaded_def AssetGroup_call_callbacks_def call_ucallback_def

section \<open>The priority queue\<close>

text \<open>The heap operations keep the entries: \<^verbatim>\<open>heappush\<close> adds the new one and
  \<^verbatim>\<open>heappop\<close> takes one away.\<close>

lemma length_siftdown_loop [simp]:
  "length (siftdown_loop h queue startpos newitem pos) = length queue"
  by (induction h queue startpos newitem pos rule: siftdown_loop.induct)
     (subst siftdown_loop.simps, simp add: Let_def)

lemma length_siftdown [simp]: "length (siftdown h queue startpos pos) = length queue"
  by (simp add: siftdown_def)

lemma length_siftup_loop [simp]: "length (fst (siftup_loop h queue pos)) = length queue"
  by (induction h queue pos rule: siftup_loop.induct)
     (subst siftup_loop.simps, simp add: Let_def)

lemma length_siftup [simp]: "length (siftup h queue pos) = length queue"
  by (simp add: siftup_def Let_def split_beta)

lemma length_heappush [simp]: "length (heappush h queue item) = Suc (length queue)"
  by (simp add: heappush_def)

lemma heappop_length:
  assumes "heappop h queue = Some (x, rest)"
  shows "length queue = Suc (length rest)"
proof -
  from assms have ne: "queue \<noteq> []"
    by (auto simp: heappop_def)
  then have "length queue = Suc (length (butlast queue))"
    by simp
  moreover from assms ne have "length rest = length (butlast queue)"
    by (auto simp: heappop_def Let_def simp del: length_butlast split: if_splits)
  ultimately show ?thesis by simp
qed

lemma heappush_Nil [simp]: "heappush h [] item = [item]"
  by (simp add: heappush_def siftdown_def siftdown_loop.simps)

lemma mset_siftdown_loop:
  "pos < length queue \<Longrightarrow>
   mset (siftdown_loop h queue startpos newitem pos) = mset (queue[pos := newitem])"
proof (induction h queue startpos newitem pos rule: siftdown_loop.induct)
  case (1 h queue startpos newitem pos)
  show ?case
  proof (cases "startpos < pos \<and> Asset_lt (h newitem) (h (queue ! ((pos - 1) div 2)))")
    case False
    then show ?thesis
      by (subst siftdown_loop.simps) (auto simp: Let_def)
  next
    case True
    let ?pp = "(pos - 1) div 2"
    let ?parent = "queue ! ?pp"
    from True have pp: "?pp < pos" by auto
    with "1.prems" have ppl: "?pp < length queue" by simp
    have "siftdown_loop h queue startpos newitem pos
            = siftdown_loop h (queue[pos := ?parent]) startpos newitem ?pp"
      using True by (subst siftdown_loop.simps) (simp add: Let_def)
    also have "mset \<dots> = mset (queue[pos := ?parent, ?pp := newitem])"
      using True ppl by (intro "1.IH") simp_all
    also have "\<dots> = mset (queue[pos := newitem])"
      using pp ppl "1.prems" by (simp add: mset_update nth_list_update)
    finally show ?thesis .
  qed
qed

lemma mset_heappush: "mset (heappush h queue item) = add_mset item (mset queue)"
  by (simp add: heappush_def siftdown_def mset_siftdown_loop)

text \<open>The order of the heap reads the priorities and the ids of the assets, nothing else.\<close>

lemma siftdown_loop_key:
  assumes "\<And>x. priority (h' x) = priority (h x) \<and> asset_id (h' x) = asset_id (h x)"
  shows "siftdown_loop h' queue startpos newitem pos = siftdown_loop h queue startpos newitem pos"
  using assms
proof (induction h queue startpos newitem pos rule: siftdown_loop.induct)
  case (1 h queue startpos newitem pos)
  from "1.prems" have p: "priority (h' x) = priority (h x)"
    and i: "asset_id (h' x) = asset_id (h x)" for x
    by simp_all
  have lt: "Asset_lt (h' x) (h' y) = Asset_lt (h x) (h y)" for x y
    by (simp add: Asset_lt_def p i)
  show ?case
  proof (cases "startpos < pos \<and> Asset_lt (h newitem) (h (queue ! ((pos - 1) div 2)))")
    case False
    then show ?thesis
      by (subst siftdown_loop.simps, subst siftdown_loop.simps [of h]) (auto simp: Let_def lt)
  next
    case True
    let ?pp = "(pos - 1) div 2"
    have "siftdown_loop h' queue startpos newitem pos
            = siftdown_loop h' (queue[pos := queue ! ?pp]) startpos newitem ?pp"
      using True by (subst siftdown_loop.simps) (simp add: Let_def lt)
    also have "\<dots> = siftdown_loop h (queue[pos := queue ! ?pp]) startpos newitem ?pp"
      using True "1.prems" by (intro "1.IH") simp_all
    also have "\<dots> = siftdown_loop h queue startpos newitem pos"
      using True by (subst (2) siftdown_loop.simps) (simp add: Let_def)
    finally show ?thesis .
  qed
qed

lemma heappush_key:
  assumes "\<And>x. priority (h' x) = priority (h x) \<and> asset_id (h' x) = asset_id (h x)"
  shows "heappush h' queue item = heappush h queue item"
  by (simp add: heappush_def siftdown_def siftdown_loop_key [OF assms])

lemma loader_queue_cong:
  "q = q' \<Longrightarrow>
   m\<lparr>num_assets_to_load := n, loader_queue := q, loaded_watcher := b\<rparr>
     = m\<lparr>num_assets_to_load := n, loader_queue := q', loaded_watcher := b\<rparr>"
  by simp

section \<open>Weighted pick\<close>

text \<open>
  C6. The claim: for a draw \<open>v\<close> in \<open>[1, totalWeight]\<close> the weighted pick returns the member
  whose bracket of cumulative weights contains \<open>v\<close>. The loop starts \<^verbatim>\<open>index_value\<close> at the
  first weight and then adds the weight of the member it has just rejected, so the bound
  tested for member \<open>i\<close> is the first weight plus the weights before \<open>i\<close>. For the members
  \<open>[(A,1), (B,2), (C,1)]\<close> and the draw 3 the bracket of \<open>B\<close> (cumulative weights 2 to 3)
  contains the draw, and the code returns \<open>C\<close>.
\<close>

theorem pick_weighed_random_misses_bracket:
  "total_weights (AssetGroup_init (Some ''random'') [(0, 1), (1, 2), (2, 1)]) = 4
   \<and> sum_list (map snd [(0::aref, 1::int)]) < 3
   \<and> 3 \<le> sum_list (map snd [(0::aref, 1::int), (1, 2)])
   \<and> fst (asset (AssetGroup_init (Some ''random'') [(0, 1), (1, 2), (2, 1)]) 3) = Inr (Some 2)"
  by (simp add: AssetGroup_init_def configure_return_asset_def asset_def returned_def
      get_random_asset_def pick_weighed_random_def)

section \<open>The sequence policy\<close>

lemma rotate1_rotate_right: "rotate1 (rotate_right xs) = xs"
  by (cases xs rule: rev_cases) (simp_all add: rotate_right_def)

lemma asset_sequence_read:
  assumes "gtype g = ''sequence''" and "asset_sequence g \<noteq> []"
  shows "asset g v = (Inr (Some (hd (rotate1 (asset_sequence g)))),
                      g\<lparr>asset_sequence := rotate1 (asset_sequence g)\<rparr>)"
proof -
  from assms(2) have "rotate1 (asset_sequence g) \<noteq> []" by simp
  then obtain a rest where "rotate1 (asset_sequence g) = a # rest"
    by (cases "rotate1 (asset_sequence g)") auto
  then show ?thesis
    using assms(1) by (simp add: asset_def returned_def get_sequence_asset_def)
qed

lemma reads_sequence:
  "gtype g = ''sequence'' \<Longrightarrow> asset_sequence g \<noteq> [] \<Longrightarrow>
   fst (reads g vs) =
     map (\<lambda>k. Inr (Some (hd (rotate (Suc k) (asset_sequence g))))) [0 ..< length vs]"
proof (induction vs arbitrary: g)
  case Nil
  then show ?case by simp
next
  case (Cons v vs)
  let ?g1 = "g\<lparr>asset_sequence := rotate1 (asset_sequence g)\<rparr>"
  have g1: "gtype ?g1 = ''sequence''" "asset_sequence ?g1 \<noteq> []"
    using Cons.prems by simp_all
  have step: "asset g v = (Inr (Some (hd (rotate1 (asset_sequence g)))), ?g1)"
    using Cons.prems by (rule asset_sequence_read)
  have "fst (reads g (v # vs)) = Inr (Some (hd (rotate1 (asset_sequence g)))) # fst (reads ?g1 vs)"
    by (simp add: step split: prod.splits)
  also have "fst (reads ?g1 vs) =
      map (\<lambda>k. Inr (Some (hd (rotate (Suc k) (rotate1 (asset_sequence g)))))) [0 ..< length vs]"
    using Cons.IH [OF g1] by simp
  finally show ?case
    by (simp add: map_upt_Suc rotate1_rotate_swap del: upt_Suc)
qed

lemma length_expand:
  "\<forall>(a, n) \<in> set members. 0 \<le> n \<Longrightarrow> int (length (expand members)) = sum_list (map snd members)"
  by (induction members) (auto simp: expand_def)

text \<open>
  C7. A group of type \<^verbatim>\<open>sequence\<close> (the default type) whose weights are not negative and
  not all 0: one rotation to the left of the buffer built by the constructor is the list
  that holds each member \<open>weight\<close> times in the order of the members; the buffer has
  \<^verbatim>\<open>_total_weights\<close> entries; and the \<open>k\<close>-th read, counted from 0, returns the entry
  \<open>k mod _total_weights\<close> of that list, whatever was drawn. For the members
  \<open>[(A,2), (B,1)]\<close> the reads are \<open>A, A, B, A, A, B\<close>.
\<close>

theorem sequence_cycle:
  assumes "ty = None \<or> ty = Some ''sequence''"
    and "\<forall>(a, n) \<in> set members. 0 \<le> n"
    and "0 < sum_list (map snd members)"
  shows "rotate1 (asset_sequence (AssetGroup_init ty members))
           = concat (map (\<lambda>(a, n). replicate (nat n) a) members)
       \<and> int (length (asset_sequence (AssetGroup_init ty members)))
           = total_weights (AssetGroup_init ty members)
       \<and> fst (reads (AssetGroup_init ty members) vs)
           = map (\<lambda>k. Inr (Some (concat (map (\<lambda>(a, n). replicate (nat n) a) members)
                                 ! (k mod nat (total_weights (AssetGroup_init ty members))))))
               [0 ..< length vs]"
proof -
  let ?g = "AssetGroup_init ty members"
  have ty: "gtype ?g = ''sequence''"
    using assms(1) by (auto simp: AssetGroup_init_def configure_return_asset_def)
  have seq: "asset_sequence ?g = rotate_right (expand members)"
    using assms(1) by (auto simp: AssetGroup_init_def configure_return_asset_def)
  have tw: "total_weights ?g = sum_list (map snd members)"
    by (auto simp: AssetGroup_init_def configure_return_asset_def Let_def)
  have len: "int (length (expand members)) = sum_list (map snd members)"
    using assms(2) by (rule length_expand)
  with assms(3) have ne: "expand members \<noteq> []" by auto
  have len_rr: "length (rotate_right (expand members)) = length (expand members)"
    using ne by (simp add: rotate_right_def)
  have ne': "asset_sequence ?g \<noteq> []"
    using ne by (simp add: seq rotate_right_def)
  have rot: "rotate (Suc k) (asset_sequence ?g) = rotate k (expand members)" for k
    by (simp add: seq rotate1_rotate_right rotate1_rotate_swap)
  have hdk: "hd (rotate (Suc k) (asset_sequence ?g)) = expand members ! (k mod length (expand members))" for k
    by (subst rot, rule hd_rotate_conv_nth, rule ne)
  have "fst (reads ?g vs) =
      map (\<lambda>k. Inr (Some (hd (rotate (Suc k) (asset_sequence ?g))))) [0 ..< length vs]"
    using ty ne' by (rule reads_sequence)
  also have "\<dots> = map (\<lambda>k. Inr (Some (expand members ! (k mod length (expand members)))))
                     [0 ..< length vs]"
    by (simp only: hdk)
  finally have rd: "fst (reads ?g vs) =
      map (\<lambda>k. Inr (Some (expand members ! (k mod length (expand members))))) [0 ..< length vs]" .
  have n: "nat (total_weights ?g) = length (expand members)"
    using len tw by simp
  have c1: "rotate1 (asset_sequence ?g) = expand members"
    by (simp add: seq rotate1_rotate_right)
  have c2: "int (length (asset_sequence ?g)) = total_weights ?g"
    by (simp add: seq len_rr len tw)
  have c3: "fst (reads ?g vs) =
      map (\<lambda>k. Inr (Some (expand members ! (k mod nat (total_weights ?g))))) [0 ..< length vs]"
    using rd by (simp only: n)
  show ?thesis
    using c1 c2 c3 unfolding expand_def by blast
qed



theorem sequence_cycle_witness:
  "(0::int) \<le> 2 \<and> (0::int) \<le> 1
   \<and> 0 < sum_list (map snd [(0::aref, 2::int), (1, 1)])
   \<and> fst (reads (AssetGroup_init (Some ''sequence'') [(0, 2), (1, 1)]) [0, 0, 0, 0, 0, 0])
       = [Inr (Some 0), Inr (Some 0), Inr (Some 1), Inr (Some 0), Inr (Some 0), Inr (Some 1)]"
proof -
  let ?ms = "[(0::aref, 2::int), (1, 1)]"
  let ?g = "AssetGroup_init (Some ''sequence'') ?ms"
  have h1: "Some ''sequence'' = None \<or> Some ''sequence'' = Some ''sequence''" by simp
  have h2: "\<forall>(a, n) \<in> set ?ms. 0 \<le> n" by simp
  have h3: "0 < sum_list (map snd ?ms)" by simp
  have ev: "map (\<lambda>k. Inr (Some (concat (map (\<lambda>(a, n). replicate (nat n) a) ?ms)
                                 ! (k mod nat (total_weights ?g)))))
               [0 ..< length [0::int, 0, 0, 0, 0, 0]]
            = [Inr (Some 0), Inr (Some 0), Inr (Some 1), Inr (Some 0), Inr (Some 0), Inr (Some 1)
                :: error + aref option]"
    by code_simp
  have "fst (reads ?g [0, 0, 0, 0, 0, 0])
       = [Inr (Some 0), Inr (Some 0), Inr (Some 1), Inr (Some 0), Inr (Some 0), Inr (Some 1)]"
    using sequence_cycle [OF h1 h2 h3, of "[0, 0, 0, 0, 0, 0]"] ev by (simp only:)
  with h3 show ?thesis by simp
qed

section \<open>What the callbacks leave alone\<close>

lemma call_ucallback_frame [simp]:
  "mgr (call_ucallback cb arg w) = mgr w"
  "in_flight (call_ucallback cb arg w) = in_flight w"
  "heap (call_ucallback cb arg w) = heap w"
  "groups (call_ucallback cb arg w) = groups w"
  by (cases cb; simp add: call_ucallback_def)+

lemma fold_ucallback_frame [simp]:
  "mgr (fold (\<lambda>cb. call_ucallback cb arg) cbs w) = mgr w"
  "in_flight (fold (\<lambda>cb. call_ucallback cb arg) cbs w) = in_flight w"
  "heap (fold (\<lambda>cb. call_ucallback cb arg) cbs w) = heap w"
  "groups (fold (\<lambda>cb. call_ucallback cb arg) cbs w) = groups w"
  by (induction cbs arbitrary: w; simp)+

lemma AssetGroup_call_callbacks_frame [simp]:
  "mgr (AssetGroup_call_callbacks g w) = mgr w"
  "in_flight (AssetGroup_call_callbacks g w) = in_flight w"
  "heap (AssetGroup_call_callbacks g w) = heap w"
  by (simp_all add: AssetGroup_call_callbacks_def upd_group_def)

lemma group_member_loaded_frame [simp]:
  "mgr (group_member_loaded g arg w) = mgr w"
  "in_flight (group_member_loaded g arg w) = in_flight w"
  "heap (group_member_loaded g arg w) = heap w"
  by (simp_all add: group_member_loaded_def Let_def upd_group_def)

lemma call_callback_frame [simp]:
  "mgr (call_callback cb a w) = mgr w"
  "in_flight (call_callback cb a w) = in_flight w"
  "heap (call_callback cb a w) = heap w"
  by (cases cb; simp add: call_callback_def)+

lemma fold_callback_frame [simp]:
  "mgr (fold (\<lambda>cb. call_callback cb a) cbs w) = mgr w"
  "in_flight (fold (\<lambda>cb. call_callback cb a) cbs w) = in_flight w"
  "heap (fold (\<lambda>cb. call_callback cb a) cbs w) = heap w"
  by (induction cbs arbitrary: w; simp)+

lemma Asset_call_callbacks_frame [simp]:
  "mgr (Asset_call_callbacks a w) = mgr w"
  "in_flight (Asset_call_callbacks a w) = in_flight w"
  "heap (Asset_call_callbacks a w) = (heap w)(a := (heap w a)\<lparr>callbacks := []\<rparr>)"
  by (simp_all add: Asset_call_callbacks_def upd_asset_def)

text \<open>The callbacks read the groups and the trace only: a change of the heap passes
  through them.\<close>

lemma call_ucallback_heap:
  "call_ucallback cb arg (w\<lparr>heap := h\<rparr>) = (call_ucallback cb arg w)\<lparr>heap := h\<rparr>"
  by (cases cb) (simp_all add: call_ucallback_def)

lemma fold_ucallback_heap:
  "fold (\<lambda>cb. call_ucallback cb arg) cbs (w\<lparr>heap := h\<rparr>)
     = (fold (\<lambda>cb. call_ucallback cb arg) cbs w)\<lparr>heap := h\<rparr>"
  by (induction cbs arbitrary: w) (simp_all add: call_ucallback_heap)

lemma AssetGroup_call_callbacks_heap:
  "AssetGroup_call_callbacks g (w\<lparr>heap := h\<rparr>) = (AssetGroup_call_callbacks g w)\<lparr>heap := h\<rparr>"
  by (simp add: AssetGroup_call_callbacks_def upd_group_def fold_ucallback_heap)

lemma group_member_loaded_heap:
  "group_member_loaded g arg (w\<lparr>heap := h\<rparr>) = (group_member_loaded g arg w)\<lparr>heap := h\<rparr>"
proof -
  have "upd_group g f (w\<lparr>heap := h\<rparr>) = (upd_group g f w)\<lparr>heap := h\<rparr>" for f
    by (simp add: upd_group_def)
  then show ?thesis
    by (simp add: group_member_loaded_def Let_def AssetGroup_call_callbacks_heap)
qed

lemma call_callback_heap:
  "call_callback cb a (w\<lparr>heap := h\<rparr>) = (call_callback cb a w)\<lparr>heap := h\<rparr>"
  by (cases cb) (simp_all add: call_callback_def call_ucallback_heap group_member_loaded_heap)

lemma fold_callback_heap:
  "fold (\<lambda>cb. call_callback cb a) cbs (w\<lparr>heap := h\<rparr>)
     = (fold (\<lambda>cb. call_callback cb a) cbs w)\<lparr>heap := h\<rparr>"
  by (induction cbs arbitrary: w) (simp_all add: call_callback_heap)

section \<open>Load while unloading\<close>

lemma Asset_load_flag:
  "Asset_load a cb prio (upd_asset a (\<lambda>x. x\<lparr>unloading := True\<rparr>) w)
     = upd_asset a (\<lambda>x. x\<lparr>unloading := True\<rparr>)
         (Asset_load a cb prio (upd_asset a (\<lambda>x. x\<lparr>unloading := False\<rparr>) w))"
  by (cases prio)
     (auto simp: Asset_load_def Let_def upd_asset_def Asset_call_callbacks_def
        load_asset_def fold_callback_heap
      intro!: world.equality asset.equality ext loader_queue_cong heappush_key)

lemma upd_asset_unloading_triv:
  assumes "unloading (heap w a)"
  shows "upd_asset a (\<lambda>x. x\<lparr>unloading := True\<rparr>) w = w"
proof -
  have "(heap w a)\<lparr>unloading := True\<rparr> = heap w a"
    using assms by (intro asset.equality) simp_all
  then show ?thesis
    by (simp add: upd_asset_def)
qed

text \<open>
  C10. \<^verbatim>\<open>Asset.load\<close> on an asset whose \<^verbatim>\<open>unloading\<close> flag is set does what it does on the
  same store with the flag cleared, and leaves the flag set. When the asset is not loaded,
  the callback is added, \<^verbatim>\<open>loading\<close> is set, and the asset is put on the loader queue with
  \<^verbatim>\<open>num_assets_to_load\<close> counted up: nothing is deferred or refused. The queue is the
  result of \<^verbatim>\<open>heappush\<close>, which holds the entries it held and the asset once more.
\<close>

theorem load_ignores_unloading:
  assumes "unloading (heap w a)"
  shows "Asset_load a cb prio w
           = upd_asset a (\<lambda>x. x\<lparr>unloading := True\<rparr>)
               (Asset_load a cb prio (upd_asset a (\<lambda>x. x\<lparr>unloading := False\<rparr>) w))
       \<and> (\<not> loaded (heap w a) \<longrightarrow>
            callbacks (heap (Asset_load a cb prio w) a) = List.insert cb (callbacks (heap w a))
          \<and> loading (heap (Asset_load a cb prio w) a)
          \<and> unloading (heap (Asset_load a cb prio w) a)
          \<and> loader_queue (mgr (Asset_load a cb prio w))
              = heappush (heap (Asset_load a cb prio w)) (loader_queue (mgr w)) a
          \<and> mset (loader_queue (mgr (Asset_load a cb prio w)))
              = add_mset a (mset (loader_queue (mgr w)))
          \<and> num_assets_to_load (mgr (Asset_load a cb prio w)) = num_assets_to_load (mgr w) + 1)"
proof -
  have "Asset_load a cb prio w = Asset_load a cb prio (upd_asset a (\<lambda>x. x\<lparr>unloading := True\<rparr>) w)"
    using assms by (simp add: upd_asset_unloading_triv)
  then have eq: "Asset_load a cb prio w
           = upd_asset a (\<lambda>x. x\<lparr>unloading := True\<rparr>)
               (Asset_load a cb prio (upd_asset a (\<lambda>x. x\<lparr>unloading := False\<rparr>) w))"
    by (simp only: Asset_load_flag)
  have eff: "\<not> loaded (heap w a) \<longrightarrow>
            callbacks (heap (Asset_load a cb prio w) a) = List.insert cb (callbacks (heap w a))
          \<and> loading (heap (Asset_load a cb prio w) a)
          \<and> unloading (heap (Asset_load a cb prio w) a)
          \<and> loader_queue (mgr (Asset_load a cb prio w))
              = heappush (heap (Asset_load a cb prio w)) (loader_queue (mgr w)) a
          \<and> mset (loader_queue (mgr (Asset_load a cb prio w)))
              = add_mset a (mset (loader_queue (mgr w)))
          \<and> num_assets_to_load (mgr (Asset_load a cb prio w)) = num_assets_to_load (mgr w) + 1"
    using assms
    by (cases prio)
       (simp_all add: Asset_load_def Let_def upd_asset_def load_asset_def mset_heappush)
  from eq eff show ?thesis by blast
qed


theorem load_ignores_unloading_witness:
  "unloading (heap unloading_world 0)
   \<and> \<not> loaded (heap unloading_world 0)
   \<and> callbacks (heap (Asset_load 0 (Ext (Fun 1)) None unloading_world) 0) = [Ext (Fun 1)]
   \<and> loading (heap (Asset_load 0 (Ext (Fun 1)) None unloading_world) 0)
   \<and> unloading (heap (Asset_load 0 (Ext (Fun 1)) None unloading_world) 0)
   \<and> loader_queue (mgr (Asset_load 0 (Ext (Fun 1)) None unloading_world)) = [0]
   \<and> num_assets_to_load (mgr (Asset_load 0 (Ext (Fun 1)) None unloading_world)) = 1"
proof -
  have h: "unloading (heap unloading_world 0)"
    by (simp add: unloading_world_def upd_asset_def)
  have n: "\<not> loaded (heap unloading_world 0)"
    by (simp add: unloading_world_def upd_asset_def new_world_def Asset_init_def)
  have c: "callbacks (heap unloading_world 0) = []"
    by (simp add: unloading_world_def upd_asset_def new_world_def Asset_init_def)
  have q: "loader_queue (mgr unloading_world) = []" "num_assets_to_load (mgr unloading_world) = 0"
    by (simp_all add: unloading_world_def upd_asset_def new_world_def AssetManager_init_def)
  from load_ignores_unloading [OF h, of "Ext (Fun 1)" None]
  have "\<not> loaded (heap unloading_world 0) \<longrightarrow>
        callbacks (heap (Asset_load 0 (Ext (Fun 1)) None unloading_world) 0)
          = List.insert (Ext (Fun 1)) (callbacks (heap unloading_world 0))
      \<and> loading (heap (Asset_load 0 (Ext (Fun 1)) None unloading_world) 0)
      \<and> unloading (heap (Asset_load 0 (Ext (Fun 1)) None unloading_world) 0)
      \<and> loader_queue (mgr (Asset_load 0 (Ext (Fun 1)) None unloading_world))
          = heappush (heap (Asset_load 0 (Ext (Fun 1)) None unloading_world))
              (loader_queue (mgr unloading_world)) 0
      \<and> mset (loader_queue (mgr (Asset_load 0 (Ext (Fun 1)) None unloading_world)))
          = add_mset 0 (mset (loader_queue (mgr unloading_world)))
      \<and> num_assets_to_load (mgr (Asset_load 0 (Ext (Fun 1)) None unloading_world))
          = num_assets_to_load (mgr unloading_world) + 1"
    by (elim conjE)
  then have "callbacks (heap (Asset_load 0 (Ext (Fun 1)) None unloading_world) 0)
          = List.insert (Ext (Fun 1)) (callbacks (heap unloading_world 0))
      \<and> loading (heap (Asset_load 0 (Ext (Fun 1)) None unloading_world) 0)
      \<and> unloading (heap (Asset_load 0 (Ext (Fun 1)) None unloading_world) 0)
      \<and> loader_queue (mgr (Asset_load 0 (Ext (Fun 1)) None unloading_world))
          = heappush (heap (Asset_load 0 (Ext (Fun 1)) None unloading_world))
              (loader_queue (mgr unloading_world)) 0
      \<and> mset (loader_queue (mgr (Asset_load 0 (Ext (Fun 1)) None unloading_world)))
          = add_mset 0 (mset (loader_queue (mgr unloading_world)))
      \<and> num_assets_to_load (mgr (Asset_load 0 (Ext (Fun 1)) None unloading_world))
          = num_assets_to_load (mgr unloading_world) + 1"
    using n by (rule mp)
  with h n show ?thesis
    by (simp add: c q)
qed

section \<open>Load of a loaded asset\<close>

lemma call_ucallback_trace:
  "\<exists>t. trace (call_ucallback cb arg w) = trace w @ t \<and> (\<forall>k. cb = Fun k \<longrightarrow> (k, arg) \<in> set t)"
  by (cases cb) (simp_all add: call_ucallback_def)

lemma fold_ucallback_trace:
  "\<exists>t. trace (fold (\<lambda>cb. call_ucallback cb arg) cbs w) = trace w @ t"
proof (induction cbs arbitrary: w)
  case Nil
  then show ?case by simp
next
  case (Cons cb cbs)
  obtain t1 where t1: "trace (call_ucallback cb arg w) = trace w @ t1"
    using call_ucallback_trace by blast
  obtain t2 where "trace (fold (\<lambda>cb. call_ucallback cb arg) cbs (call_ucallback cb arg w))
      = trace (call_ucallback cb arg w) @ t2"
    using Cons.IH by blast
  then show ?case by (simp add: t1)
qed

lemma upd_group_trace [simp]: "trace (upd_group g f w) = trace w"
  by (simp add: upd_group_def)

lemma AssetGroup_call_callbacks_trace:
  "\<exists>t. trace (AssetGroup_call_callbacks g w) = trace w @ t"
  using fold_ucallback_trace by (simp add: AssetGroup_call_callbacks_def)

lemma group_member_loaded_trace:
  "\<exists>t. trace (group_member_loaded g arg w) = trace w @ t"
proof -
  let ?w1 = "upd_group g (\<lambda>x. x\<lparr>loading_members := removeAll arg (loading_members x)\<rparr>) w"
  obtain t where "trace (AssetGroup_call_callbacks g ?w1) = trace ?w1 @ t"
    using AssetGroup_call_callbacks_trace by blast
  then show ?thesis
    by (simp add: group_member_loaded_def Let_def)
qed

lemma call_callback_trace:
  "\<exists>t. trace (call_callback cb a w) = trace w @ t
       \<and> (\<forall>k. cb = Ext (Fun k) \<longrightarrow> (k, ObjAsset a) \<in> set t)"
proof (cases cb)
  case (Ext u)
  then show ?thesis
    using call_ucallback_trace [of u "ObjAsset a" w] by (auto simp: call_callback_def)
next
  case (GroupMemberLoaded g)
  then show ?thesis
    using group_member_loaded_trace [of g "ObjAsset a" w] by (auto simp: call_callback_def)
qed

lemma fold_callback_trace:
  "\<exists>t. trace (fold (\<lambda>cb. call_callback cb a) cbs w) = trace w @ t
       \<and> (\<forall>k. Ext (Fun k) \<in> set cbs \<longrightarrow> (k, ObjAsset a) \<in> set t)"
proof (induction cbs arbitrary: w)
  case Nil
  then show ?case by simp
next
  case (Cons cb cbs)
  let ?w1 = "call_callback cb a w"
  from call_callback_trace [of cb a w]
  obtain t1 where t1: "trace ?w1 = trace w @ t1"
      and u1: "\<forall>k. cb = Ext (Fun k) \<longrightarrow> (k, ObjAsset a) \<in> set t1"
    by (elim exE conjE)
  from Cons.IH [of ?w1]
  obtain t2 where t2: "trace (fold (\<lambda>cb. call_callback cb a) cbs ?w1) = trace ?w1 @ t2"
      and u2: "\<forall>k. Ext (Fun k) \<in> set cbs \<longrightarrow> (k, ObjAsset a) \<in> set t2"
    by (elim exE conjE)
  have a1: "trace (fold (\<lambda>cb. call_callback cb a) (cb # cbs) w) = trace w @ (t1 @ t2)"
    using t1 t2 by simp
  have a2: "\<forall>k. Ext (Fun k) \<in> set (cb # cbs) \<longrightarrow> (k, ObjAsset a) \<in> set (t1 @ t2)"
  proof (intro allI impI)
    fix k
    assume "Ext (Fun k) \<in> set (cb # cbs)"
    then have "cb = Ext (Fun k) \<or> Ext (Fun k) \<in> set cbs" by auto
    then show "(k, ObjAsset a) \<in> set (t1 @ t2)"
      using u1 u2 by auto
  qed
  show ?case
    by (rule exI [of _ "t1 @ t2"]) (rule conjI [OF a1 a2])
qed

text \<open>A group is settled for an asset when the asset is not among its loading members and,
  if it has no loading member, its callbacks have been called and cleared.\<close>

lemma groups_AssetGroup_call_callbacks:
  "groups (AssetGroup_call_callbacks g w) = (groups w)(g := (groups w g)\<lparr>group_callbacks := []\<rparr>)"
  by (simp add: AssetGroup_call_callbacks_def upd_group_def)

lemma groups_group_member_loaded_other:
  "g' \<noteq> g \<Longrightarrow> groups (group_member_loaded g' arg w) g = groups w g"
  by (simp add: group_member_loaded_def Let_def groups_AssetGroup_call_callbacks)
     (simp add: upd_group_def)

lemma group_member_loaded_settles:
  "arg \<notin> set (loading_members (groups (group_member_loaded g arg w) g))
   \<and> (loading_members (groups (group_member_loaded g arg w) g) = []
        \<longrightarrow> group_callbacks (groups (group_member_loaded g arg w) g) = [])"
  by (simp add: group_member_loaded_def Let_def groups_AssetGroup_call_callbacks)
     (simp add: upd_group_def)

lemma call_callback_keeps_settled:
  assumes "ObjAsset a \<notin> set (loading_members (groups w g))"
    and "loading_members (groups w g) = [] \<longrightarrow> group_callbacks (groups w g) = []"
  shows "ObjAsset a \<notin> set (loading_members (groups (call_callback cb a w) g))
       \<and> (loading_members (groups (call_callback cb a w) g) = []
            \<longrightarrow> group_callbacks (groups (call_callback cb a w) g) = [])"
proof (cases cb)
  case (Ext u)
  then show ?thesis using assms by (simp add: call_callback_def)
next
  case (GroupMemberLoaded g')
  show ?thesis
  proof (cases "g' = g")
    case True
    then show ?thesis
      using GroupMemberLoaded group_member_loaded_settles [of "ObjAsset a" g w]
      by (simp add: call_callback_def)
  next
    case False
    then show ?thesis
      using GroupMemberLoaded assms
      by (simp add: call_callback_def groups_group_member_loaded_other)
  qed
qed

lemma fold_callback_keeps_settled:
  "ObjAsset a \<notin> set (loading_members (groups w g)) \<Longrightarrow>
   (loading_members (groups w g) = [] \<longrightarrow> group_callbacks (groups w g) = []) \<Longrightarrow>
   ObjAsset a \<notin> set (loading_members (groups (fold (\<lambda>cb. call_callback cb a) cbs w) g))
   \<and> (loading_members (groups (fold (\<lambda>cb. call_callback cb a) cbs w) g) = []
        \<longrightarrow> group_callbacks (groups (fold (\<lambda>cb. call_callback cb a) cbs w) g) = [])"
proof (induction cbs arbitrary: w)
  case Nil
  then show ?case by simp
next
  case (Cons cb cbs)
  from call_callback_keeps_settled [OF Cons.prems, of cb]
  show ?case using Cons.IH [of "call_callback cb a w"] by simp
qed

lemma fold_callback_settles:
  "GroupMemberLoaded g \<in> set cbs \<Longrightarrow>
   ObjAsset a \<notin> set (loading_members (groups (fold (\<lambda>cb. call_callback cb a) cbs w) g))
   \<and> (loading_members (groups (fold (\<lambda>cb. call_callback cb a) cbs w) g) = []
        \<longrightarrow> group_callbacks (groups (fold (\<lambda>cb. call_callback cb a) cbs w) g) = [])"
proof (induction cbs arbitrary: w)
  case Nil
  then show ?case by simp
next
  case (Cons cb cbs)
  show ?case
  proof (cases "cb = GroupMemberLoaded g")
    case True
    have s: "ObjAsset a \<notin> set (loading_members (groups (call_callback cb a w) g))"
        "loading_members (groups (call_callback cb a w) g) = []
           \<longrightarrow> group_callbacks (groups (call_callback cb a w) g) = []"
      using True group_member_loaded_settles [of "ObjAsset a" g w]
      by (simp_all add: call_callback_def)
    from fold_callback_keeps_settled [OF s] show ?thesis by simp
  next
    case False
    with Cons.prems have "GroupMemberLoaded g \<in> set cbs" by simp
    from Cons.IH [OF this, of "call_callback cb a w"] show ?thesis by simp
  qed
qed

lemma groups_Asset_call_callbacks:
  "groups (Asset_call_callbacks a w) = groups (fold (\<lambda>cb. call_callback cb a) (callbacks (heap w a)) w)"
  by (simp add: Asset_call_callbacks_def upd_asset_def)

lemma trace_Asset_call_callbacks:
  "trace (Asset_call_callbacks a w) = trace (fold (\<lambda>cb. call_callback cb a) (callbacks (heap w a)) w)"
  by (simp add: Asset_call_callbacks_def upd_asset_def)

text \<open>On a settled group the callback of a member changes nothing.\<close>

lemma group_member_loaded_settled:
  assumes "arg \<notin> set (loading_members (groups w g))"
    and "loading_members (groups w g) = [] \<longrightarrow> group_callbacks (groups w g) = []"
  shows "group_member_loaded g arg w = w"
proof -
  have r: "removeAll arg (loading_members (groups w g)) = loading_members (groups w g)"
    using assms(1) by simp
  have g1: "(groups w g)\<lparr>loading_members := loading_members (groups w g)\<rparr> = groups w g"
    by simp
  have u: "upd_group g (\<lambda>x. x\<lparr>loading_members := removeAll arg (loading_members x)\<rparr>) w = w"
    by (simp add: upd_group_def r)
  show ?thesis
  proof (cases "loading_members (groups w g) = []")
    case True
    with assms(2) have c: "group_callbacks (groups w g) = []" by simp
    have e: "(groups w g)\<lparr>group_callbacks := []\<rparr> = groups w g"
      using c by (intro asset_group.equality) simp_all
    have "AssetGroup_call_callbacks g w = upd_group g (\<lambda>x. x\<lparr>group_callbacks := []\<rparr>) w"
      by (simp add: AssetGroup_call_callbacks_def c)
    also have "\<dots> = w"
      by (simp add: upd_group_def e)
    finally have "AssetGroup_call_callbacks g w = w" .
    then show ?thesis
      using True by (simp add: group_member_loaded_def Let_def u)
  next
    case False
    then show ?thesis
      by (simp add: group_member_loaded_def Let_def u)
  qed
qed

lemma call_ucallback_modulo_trace:
  "(call_ucallback cb arg w)\<lparr>trace := t\<rparr> = w\<lparr>trace := t\<rparr>"
  by (cases cb) (simp_all add: call_ucallback_def)


lemma call_callback_modulo_trace:
  assumes "\<forall>g. cb = GroupMemberLoaded g \<longrightarrow>
             ObjAsset a \<notin> set (loading_members (groups v g))
           \<and> (loading_members (groups v g) = [] \<longrightarrow> group_callbacks (groups v g) = [])"
  shows "(call_callback cb a v)\<lparr>trace := t\<rparr> = v\<lparr>trace := t\<rparr>"
proof (cases cb)
  case (Ext u)
  then show ?thesis
    by (simp add: call_callback_def call_ucallback_modulo_trace)
next
  case (GroupMemberLoaded g)
  with assms have "group_member_loaded g (ObjAsset a) v = v"
    by (intro group_member_loaded_settled) simp_all
  then show ?thesis
    using GroupMemberLoaded by (simp add: call_callback_def)
qed

lemma registered_frame [simp]:
  "mgr (registered a cb prio w) = mgr w"
  "in_flight (registered a cb prio w) = in_flight w"
  "groups (registered a cb prio w) = groups w"
  "trace (registered a cb prio w) = trace w"
  "loaded (heap (registered a cb prio w) a) = loaded (heap w a)"
  "callbacks (heap (registered a cb prio w) a) = List.insert cb (callbacks (heap w a))"
  by (cases prio; simp add: registered_def upd_asset_def)+

lemma Asset_load_loaded:
  "loaded (heap w a) \<Longrightarrow>
   Asset_load a cb prio w = Asset_call_callbacks a (registered a cb prio w)"
  by (cases prio) (simp_all add: Asset_load_def Let_def registered_def upd_asset_def)

lemma Asset_load_again:
  assumes l: "loaded (heap v a)"
    and c: "callbacks (heap v a) = []"
    and p: "\<forall>p. prio = Some p \<longrightarrow> priority (heap v a) = p"
    and s: "\<forall>g. cb = GroupMemberLoaded g \<longrightarrow>
             ObjAsset a \<notin> set (loading_members (groups v g))
           \<and> (loading_members (groups v g) = [] \<longrightarrow> group_callbacks (groups v g) = [])"
  shows "(Asset_load a cb prio v)\<lparr>trace := t\<rparr> = v\<lparr>trace := t\<rparr>"
proof -
  let ?h = "(heap v)(a := (heap v a)\<lparr>callbacks := [cb]\<rparr>)"
  have pr: "(case prio of None \<Rightarrow> v | Some p \<Rightarrow> upd_asset a (\<lambda>x. x\<lparr>priority := p\<rparr>) v) = v"
  proof (cases prio)
    case None
    then show ?thesis by simp
  next
    case (Some q)
    with p have "(heap v a)\<lparr>priority := q\<rparr> = heap v a"
      by (intro asset.equality) simp_all
    then show ?thesis
      using Some by (simp add: upd_asset_def)
  qed
  have r: "registered a cb prio v = v\<lparr>heap := ?h\<rparr>"
    by (simp add: registered_def pr) (simp add: upd_asset_def c)
  have bk: "(?h a)\<lparr>callbacks := []\<rparr> = heap v a"
    using c by (intro asset.equality) simp_all
  have hv: "?h(a := (?h a)\<lparr>callbacks := []\<rparr>) = heap v"
    by (simp only: bk) simp
  have "Asset_load a cb prio v = Asset_call_callbacks a (v\<lparr>heap := ?h\<rparr>)"
    using l by (simp add: Asset_load_loaded r)
  also have "\<dots> = upd_asset a (\<lambda>x. x\<lparr>callbacks := []\<rparr>) ((call_callback cb a v)\<lparr>heap := ?h\<rparr>)"
    by (simp add: Asset_call_callbacks_def call_callback_heap)
  also have "\<dots> = (call_callback cb a v)\<lparr>heap := ?h(a := (?h a)\<lparr>callbacks := []\<rparr>)\<rparr>"
    by (simp add: upd_asset_def)
  also have "\<dots> = (call_callback cb a v)\<lparr>heap := heap v\<rparr>"
    by (simp only: hv)
  finally have "(Asset_load a cb prio v)\<lparr>trace := t\<rparr>
      = ((call_callback cb a v)\<lparr>trace := t\<rparr>)\<lparr>heap := heap v\<rparr>"
    by simp
  also have "\<dots> = (v\<lparr>trace := t\<rparr>)\<lparr>heap := heap v\<rparr>"
    by (simp only: call_callback_modulo_trace [OF s])
  also have "\<dots> = v\<lparr>trace := t\<rparr>"
    by simp
  finally show ?thesis .
qed

text \<open>
  C4. \<^verbatim>\<open>Asset.load\<close> on a loaded asset leaves the manager as it is, the loader queue and
  \<^verbatim>\<open>num_assets_to_load\<close> among its fields, and asks nothing of the loader thread. It calls
  the callbacks of the asset before it returns: every function of a caller is called with
  the asset, every group whose \<^verbatim>\<open>_group_member_loaded\<close> is among them has the asset taken
  off its loading members, and the callback set is left empty. A second such call changes
  nothing but the trace of the calls.
\<close>

theorem load_of_loaded_asset:
  assumes "loaded (heap w a)"
  shows "loader_queue (mgr (Asset_load a cb prio w)) = loader_queue (mgr w)
       \<and> num_assets_to_load (mgr (Asset_load a cb prio w)) = num_assets_to_load (mgr w)
       \<and> mgr (Asset_load a cb prio w) = mgr w
       \<and> in_flight (Asset_load a cb prio w) = in_flight w
       \<and> loaded (heap (Asset_load a cb prio w) a)
       \<and> callbacks (heap (Asset_load a cb prio w) a) = []
       \<and> (\<exists>t. trace (Asset_load a cb prio w) = trace w @ t
             \<and> (\<forall>k. Ext (Fun k) \<in> set (List.insert cb (callbacks (heap w a)))
                    \<longrightarrow> (k, ObjAsset a) \<in> set t))
       \<and> (\<forall>g. GroupMemberLoaded g \<in> set (List.insert cb (callbacks (heap w a)))
              \<longrightarrow> ObjAsset a \<notin> set (loading_members (groups (Asset_load a cb prio w) g)))
       \<and> (\<forall>t. (Asset_load a cb prio (Asset_load a cb prio w))\<lparr>trace := t\<rparr>
                = (Asset_load a cb prio w)\<lparr>trace := t\<rparr>)"
proof -
  let ?r = "registered a cb prio w"
  let ?w' = "Asset_load a cb prio w"
  let ?cbs = "List.insert cb (callbacks (heap w a))"
  have eq: "?w' = Asset_call_callbacks a ?r"
    using assms by (rule Asset_load_loaded)
  have m: "mgr ?w' = mgr w" and f: "in_flight ?w' = in_flight w"
    by (simp_all add: eq)
  have l: "loaded (heap ?w' a)" and c: "callbacks (heap ?w' a) = []"
    using assms by (simp_all add: eq)
  have p: "\<forall>p. prio = Some p \<longrightarrow> priority (heap ?w' a) = p"
  proof (intro allI impI)
    fix q
    assume "prio = Some q"
    then have "priority (heap (Asset_call_callbacks a ?r) a) = q"
      by (simp add: registered_def upd_asset_def)
    then show "priority (heap ?w' a) = q"
      by (simp only: eq)
  qed
  have tr: "\<exists>t. trace ?w' = trace w @ t
             \<and> (\<forall>k. Ext (Fun k) \<in> set ?cbs \<longrightarrow> (k, ObjAsset a) \<in> set t)"
    using fold_callback_trace [of a ?cbs ?r]
    by (simp add: eq trace_Asset_call_callbacks)
  have st: "ObjAsset a \<notin> set (loading_members (groups ?w' g))
          \<and> (loading_members (groups ?w' g) = [] \<longrightarrow> group_callbacks (groups ?w' g) = [])"
    if "GroupMemberLoaded g \<in> set ?cbs" for g
    using fold_callback_settles [OF that, of a ?r]
    by (simp add: eq groups_Asset_call_callbacks)
  have s: "\<forall>g. cb = GroupMemberLoaded g \<longrightarrow>
             ObjAsset a \<notin> set (loading_members (groups ?w' g))
           \<and> (loading_members (groups ?w' g) = [] \<longrightarrow> group_callbacks (groups ?w' g) = [])"
  proof (intro allI impI)
    fix g
    assume "cb = GroupMemberLoaded g"
    then have "GroupMemberLoaded g \<in> set ?cbs" by simp
    then show "ObjAsset a \<notin> set (loading_members (groups ?w' g))
           \<and> (loading_members (groups ?w' g) = [] \<longrightarrow> group_callbacks (groups ?w' g) = [])"
      by (rule st)
  qed
  have idem: "\<forall>t. (Asset_load a cb prio ?w')\<lparr>trace := t\<rparr> = ?w'\<lparr>trace := t\<rparr>"
    using Asset_load_again [OF l c p s] by simp
  have gm: "\<forall>g. GroupMemberLoaded g \<in> set ?cbs
              \<longrightarrow> ObjAsset a \<notin> set (loading_members (groups ?w' g))"
    using st by blast
  show ?thesis
    using m f l c tr gm idem by (simp only: simp_thms)
qed

lemma loaded_world_facts:
  "loaded (heap loaded_world 0)"
  "callbacks (heap loaded_world 0) = []"
  "loader_queue (mgr loaded_world) = []"
  "num_assets_to_load (mgr loaded_world) = 0"
  "trace loaded_world = []"
  by (simp_all add: loaded_world_def model_defs)

theorem load_of_loaded_asset_witness:
  "loaded (heap loaded_world 0)
   \<and> Ext (Fun 1) \<in> set (List.insert (Ext (Fun 1)) (callbacks (heap loaded_world 0)))
   \<and> GroupMemberLoaded 0 \<in> set (List.insert (GroupMemberLoaded 0) (callbacks (heap loaded_world 0)))
   \<and> loader_queue (mgr (Asset_load 0 (Ext (Fun 1)) None loaded_world)) = []
   \<and> num_assets_to_load (mgr (Asset_load 0 (Ext (Fun 1)) None loaded_world)) = 0
   \<and> (1, ObjAsset 0) \<in> set (trace (Asset_load 0 (Ext (Fun 1)) None loaded_world))
   \<and> ObjAsset 0 \<notin> set (loading_members
                         (groups (Asset_load 0 (GroupMemberLoaded 0) None loaded_world) 0))"
proof -
  have h: "loaded (heap loaded_world 0)"
    by (rule loaded_world_facts)
  have i1: "Ext (Fun 1) \<in> set (List.insert (Ext (Fun 1)) (callbacks (heap loaded_world 0)))"
    and i2: "GroupMemberLoaded 0
               \<in> set (List.insert (GroupMemberLoaded 0) (callbacks (heap loaded_world 0)))"
    by simp_all
  note t1 = load_of_loaded_asset [OF h, of "Ext (Fun 1)" None]
  note t2 = load_of_loaded_asset [OF h, of "GroupMemberLoaded 0" None]
  from t1 have q: "loader_queue (mgr (Asset_load 0 (Ext (Fun 1)) None loaded_world)) = []"
      "num_assets_to_load (mgr (Asset_load 0 (Ext (Fun 1)) None loaded_world)) = 0"
    by (simp_all add: loaded_world_facts)
  from t1 obtain t where
      "trace (Asset_load 0 (Ext (Fun 1)) None loaded_world) = trace loaded_world @ t"
      "\<forall>k. Ext (Fun k) \<in> set (List.insert (Ext (Fun 1)) (callbacks (heap loaded_world 0)))
             \<longrightarrow> (k, ObjAsset 0) \<in> set t"
    by (elim conjE exE)
  with i1 have tr: "(1, ObjAsset 0) \<in> set (trace (Asset_load 0 (Ext (Fun 1)) None loaded_world))"
    by simp
  from t2 have "\<forall>g. GroupMemberLoaded g
                  \<in> set (List.insert (GroupMemberLoaded 0) (callbacks (heap loaded_world 0)))
              \<longrightarrow> ObjAsset 0 \<notin> set (loading_members
                    (groups (Asset_load 0 (GroupMemberLoaded 0) None loaded_world) g))"
    by (elim conjE)
  with i2 have gm: "ObjAsset 0 \<notin> set (loading_members
                    (groups (Asset_load 0 (GroupMemberLoaded 0) None loaded_world) 0))"
    by blast
  from h i1 i2 q tr gm show ?thesis
    by (intro conjI)
qed

section \<open>The order of the loader queue\<close>

text \<open>
  C1. The claim: of two assets on the loader queue the one of higher priority is taken
  first, and of two of the same priority the one created first. \<^verbatim>\<open>__lt__\<close> compares the
  texts \<^verbatim>\<open>"priority, id"\<close>, and the greater text is the lesser asset. So of two assets of
  priority 0 with the ids 1 and 2 the loader thread takes the one with id 2, created and
  requested last; and of the priorities 10 and 9 it takes 9, since the text \<^verbatim>\<open>"9, 2"\<close> is
  greater than \<^verbatim>\<open>"10, 1"\<close>.
\<close>

theorem Asset_lt_compares_strings:
  "asset_id (heap (new_world [0, 0] (\<lambda>g. AssetGroup_init None [])) 0) = 1
   \<and> asset_id (heap (new_world [0, 0] (\<lambda>g. AssetGroup_init None [])) 1) = 2
   \<and> Asset_lt (heap (new_world [0, 0] (\<lambda>g. AssetGroup_init None [])) 1)
               (heap (new_world [0, 0] (\<lambda>g. AssetGroup_init None [])) 0)
   \<and> in_flight (run [Load 0 NoCallback None, Load 1 NoCallback None, LoaderGet]
                  (new_world [0, 0] (\<lambda>g. AssetGroup_init None []))) = Some 1
   \<and> priority (heap (new_world [10, 9] (\<lambda>g. AssetGroup_init None [])) 0) = 10
   \<and> priority (heap (new_world [10, 9] (\<lambda>g. AssetGroup_init None [])) 1) = 9
   \<and> Asset_lt (heap (new_world [10, 9] (\<lambda>g. AssetGroup_init None [])) 1)
               (heap (new_world [10, 9] (\<lambda>g. AssetGroup_init None [])) 0)
   \<and> in_flight (run [Load 0 NoCallback None, Load 1 NoCallback None, LoaderGet]
                  (new_world [10, 9] (\<lambda>g. AssetGroup_init None []))) = Some 1"
  by (simp add: model_defs)

section \<open>Loading a group\<close>

text \<open>
  C2. The claim: the callbacks of a group are called when the last member in flight has
  been loaded. \<^verbatim>\<open>AssetGroup.load\<close> adds the member tuple \<^verbatim>\<open>(asset, number)\<close> to
  \<^verbatim>\<open>loading_members\<close>, and \<^verbatim>\<open>_group_member_loaded\<close> discards the asset, which is not in the
  set. For a group of one member that is not loaded: after the member has gone through
  the loader thread and the poll, it is loaded, nothing is in flight, the tuple is still a
  loading member and the callback of the group has not been called; a later
  \<^verbatim>\<open>load\<close> of the group, all of whose members are loaded, does not call it either.
\<close>

theorem group_callbacks_never_fire:
  "(let w = run [GroupLoad 0 (Fun 7) None, LoaderGet, LoaderPut, CheckLoaderStatus]
              (new_world [0] (\<lambda>g. AssetGroup_init None [(0, 1)]))
    in loaded (heap w 0)
       \<and> loader_queue (mgr w) = [] \<and> loaded_queue (mgr w) = [] \<and> in_flight w = None
       \<and> loading_members (groups w 0) = [ObjTuple 0 1]
       \<and> group_callbacks (groups w 0) = [Fun 7]
       \<and> trace w = []
       \<and> trace (run [GroupLoad 0 (Fun 8) None] w) = [])"
  by (simp add: model_defs Let_def)

section \<open>The counters of the manager\<close>

lemma counters_ok_frame:
  "mgr w' = mgr w \<Longrightarrow> in_flight w' = in_flight w \<Longrightarrow> counters_ok w \<Longrightarrow> counters_ok w'"
  by (simp add: counters_ok_def outstanding_def)

lemma Asset_load_not_loaded:
  "\<not> loaded (heap w a) \<Longrightarrow>
   mgr (Asset_load a cb prio w)
     = (mgr w)\<lparr>num_assets_to_load := num_assets_to_load (mgr w) + 1,
               loader_queue := heappush (heap (Asset_load a cb prio w)) (loader_queue (mgr w)) a,
               loaded_watcher := True\<rparr>
   \<and> in_flight (Asset_load a cb prio w) = in_flight w"
  by (cases prio) (simp_all add: Asset_load_def Let_def upd_asset_def load_asset_def)

lemma counters_ok_Asset_load:
  assumes "counters_ok w"
  shows "counters_ok (Asset_load a cb prio w)"
proof (cases "loaded (heap w a)")
  case True
  then have "mgr (Asset_load a cb prio w) = mgr w" "in_flight (Asset_load a cb prio w) = in_flight w"
    by (simp_all add: Asset_load_loaded)
  then show ?thesis using assms by (rule counters_ok_frame)
next
  case False
  from Asset_load_not_loaded [OF this, of cb prio] show ?thesis
    using assms by (simp add: counters_ok_def outstanding_def)
qed

lemma upd_group_frame [simp]:
  "mgr (upd_group g f w) = mgr w"
  "in_flight (upd_group g f w) = in_flight w"
  "heap (upd_group g f w) = heap w"
  by (simp_all add: upd_group_def)

lemma counters_ok_upd_group:
  "counters_ok w \<Longrightarrow> counters_ok (upd_group g f w)"
  by (rule counters_ok_frame [of _ w]) simp_all

lemma counters_ok_load_member:
  "counters_ok w \<Longrightarrow> counters_ok (load_member g member w)"
  by (simp add: load_member_def counters_ok_Asset_load counters_ok_upd_group)

lemma counters_ok_fold_load_member:
  "counters_ok w \<Longrightarrow> counters_ok (fold (load_member g) members w)"
  by (induction members arbitrary: w) (simp_all add: counters_ok_load_member)

lemma counters_ok_AssetGroup_load:
  assumes "counters_ok w"
  shows "counters_ok (AssetGroup_load g cb prio w)"
proof -
  let ?w1 = "case prio of None \<Rightarrow> w | Some p \<Rightarrow> upd_group g (\<lambda>x. x\<lparr>group_priority := Some p\<rparr>) w"
  let ?w2 = "upd_group g (\<lambda>x. x\<lparr>group_callbacks := List.insert cb (group_callbacks x)\<rparr>) ?w1"
  let ?w3 = "fold (load_member g) (assets (groups ?w2 g)) ?w2"
  have "counters_ok ?w1"
    using assms by (cases prio) (simp_all add: counters_ok_upd_group)
  then have "counters_ok ?w2"
    by (rule counters_ok_upd_group)
  then have w3: "counters_ok ?w3"
    by (rule counters_ok_fold_load_member)
  then have "counters_ok (AssetGroup_call_callbacks g ?w3)"
    by (rule counters_ok_frame [rotated 2]) simp_all
  with w3 show ?thesis
    by (simp add: AssetGroup_load_def Let_def)
qed

lemma counters_ok_Asset_unload:
  "counters_ok w \<Longrightarrow> counters_ok (Asset_unload a w)"
  by (simp add: Asset_unload_def Let_def upd_asset_def counters_ok_def outstanding_def)

lemma counters_ok_bcp:
  "counters_ok w \<Longrightarrow> counters_ok (bcp_client_asset_load total_n remaining w)"
  by (simp add: bcp_client_asset_load_def counters_ok_def outstanding_def)

lemma counters_ok_loader_get:
  assumes "counters_ok w"
  shows "counters_ok (loader_get w)"
proof (cases "in_flight w")
  case (Some a)
  then show ?thesis using assms by (simp add: loader_get_def)
next
  case None
  show ?thesis
  proof (cases "heappop (heap w) (loader_queue (mgr w))")
    case n: None
    then show ?thesis using assms None by (simp add: loader_get_def)
  next
    case (Some mr)
    obtain m rest where mr: "mr = (m, rest)" by (cases mr)
    from Some mr have "length (loader_queue (mgr w)) = Suc (length rest)"
      by (intro heappop_length [of "heap w" _ m]) simp
    then show ?thesis
      using assms None Some mr
      by (simp add: loader_get_def counters_ok_def outstanding_def)
  qed
qed

lemma counters_ok_loader_put:
  "counters_ok w \<Longrightarrow> counters_ok (loader_put w)"
  by (cases "in_flight w") (simp_all add: loader_put_def counters_ok_def outstanding_def)

lemma Asset_loaded_frame [simp]:
  "mgr (Asset_loaded a w) = mgr w"
  "in_flight (Asset_loaded a w) = in_flight w"
  by (simp_all add: Asset_loaded_def upd_asset_def)

lemma counters_ok_poll_one:
  "counters_ok w \<Longrightarrow> counters_ok (poll_one w)"
  by (cases "loaded_queue (mgr w)")
     (simp_all add: poll_one_def Let_def counters_ok_def outstanding_def)

lemma counters_ok_poll_check:
  assumes "counters_ok w"
  shows "counters_ok (poll_check w)"
proof (cases "num_assets_to_load (mgr w) = num_assets_loaded (mgr w)")
  case True
  with assms have "outstanding w \<le> 0"
    by (simp add: counters_ok_def)
  moreover have "0 \<le> outstanding w"
    by (cases "in_flight w") (simp_all add: outstanding_def)
  ultimately have "outstanding w = 0" by simp
  then have "outstanding (poll_check w) = 0"
    using True by (simp add: poll_check_def outstanding_def)
  then show ?thesis
    using True by (simp add: counters_ok_def) (simp add: poll_check_def)
next
  case False
  then show ?thesis using assms by (simp add: poll_check_def)
qed

lemma counters_ok_drain:
  "counters_ok w \<Longrightarrow> counters_ok (drain w)"
proof (induction w rule: drain.induct)
  case (1 w)
  show ?case
  proof (cases "loaded_queue (mgr w) = []")
    case True
    then show ?thesis using "1.prems" by (simp add: drain.simps)
  next
    case False
    from "1.IH" [OF False counters_ok_poll_one [OF "1.prems"]]
    show ?thesis using False by (subst drain.simps) simp
  qed
qed

lemma loaded_queue_drain: "loaded_queue (mgr (drain w)) = []"
proof (induction w rule: drain.induct)
  case (1 w)
  show ?case
  proof (cases "loaded_queue (mgr w) = []")
    case True
    then show ?thesis by (simp add: drain.simps)
  next
    case False
    from "1.IH" [OF False] show ?thesis using False by (subst drain.simps) simp
  qed
qed

lemma counters_ok_check_loader_status:
  "counters_ok w \<Longrightarrow> counters_ok (check_loader_status w)"
  by (simp add: check_loader_status_def counters_ok_poll_check counters_ok_drain)

lemma counters_ok_step:
  "counters_ok w \<Longrightarrow> counters_ok (step ev w)"
  by (cases ev)
     (simp_all add: counters_ok_Asset_load counters_ok_Asset_unload counters_ok_AssetGroup_load
        counters_ok_bcp counters_ok_loader_get counters_ok_loader_put counters_ok_poll_one
        counters_ok_poll_check counters_ok_check_loader_status)

lemma counters_ok_run:
  "counters_ok w \<Longrightarrow> counters_ok (run evs w)"
  unfolding run_def by (induction evs arbitrary: w) (simp_all add: counters_ok_step)

lemma counters_ok_initial:
  "initial w \<Longrightarrow> counters_ok w"
  by (simp add: initial_def counters_ok_def outstanding_def AssetManager_init_def)

lemma drain_empty: "loaded_queue (mgr w) = [] \<Longrightarrow> drain w = w"
  by (simp add: drain.simps)

text \<open>
  C3. From a store right after the construction of the manager, after any run of loads,
  unloads, group loads, reports of a client, turns of the loader thread and polls (whole or
  in parts): \<open>0 \<le> num_assets_loaded \<le> num_assets_to_load\<close>. A poll that finds the two
  counters equal, before it or after its loop, leaves both at 0; and a poll on an empty
  loaded queue with both counters at 0 leaves every counter as it was.
\<close>

theorem counters_invariant:
  assumes "initial w0"
  shows "0 \<le> num_assets_loaded (mgr (run evs w0))
       \<and> num_assets_loaded (mgr (run evs w0)) \<le> num_assets_to_load (mgr (run evs w0))
       \<and> (num_assets_loaded (mgr (drain (run evs w0))) = num_assets_to_load (mgr (drain (run evs w0)))
            \<longrightarrow> num_assets_loaded (mgr (check_loader_status (run evs w0))) = 0
              \<and> num_assets_to_load (mgr (check_loader_status (run evs w0))) = 0)
       \<and> (num_assets_loaded (mgr (run evs w0)) = num_assets_to_load (mgr (run evs w0))
            \<longrightarrow> num_assets_loaded (mgr (check_loader_status (run evs w0))) = 0
              \<and> num_assets_to_load (mgr (check_loader_status (run evs w0))) = 0)
       \<and> (loaded_queue (mgr (run evs w0)) = []
            \<and> num_assets_loaded (mgr (run evs w0)) = 0
            \<and> num_assets_to_load (mgr (run evs w0)) = 0
            \<longrightarrow> num_assets_loaded (mgr (check_loader_status (run evs w0))) = 0
              \<and> num_assets_to_load (mgr (check_loader_status (run evs w0))) = 0
              \<and> num_bcp_assets_loaded (mgr (check_loader_status (run evs w0)))
                   = num_bcp_assets_loaded (mgr (run evs w0))
              \<and> num_bcp_assets_to_load (mgr (check_loader_status (run evs w0)))
                   = num_bcp_assets_to_load (mgr (run evs w0)))"
proof -
  let ?w = "run evs w0"
  have ok: "counters_ok ?w"
    using assms by (simp add: counters_ok_initial counters_ok_run)
  have c1: "0 \<le> num_assets_loaded (mgr ?w)"
    and c2: "num_assets_loaded (mgr ?w) \<le> num_assets_to_load (mgr ?w)"
  proof -
    have "0 \<le> outstanding ?w"
      by (cases "in_flight ?w") (simp_all add: outstanding_def)
    with ok show "0 \<le> num_assets_loaded (mgr ?w)"
      and "num_assets_loaded (mgr ?w) \<le> num_assets_to_load (mgr ?w)"
      by (simp_all add: counters_ok_def)
  qed
  have c3: "num_assets_loaded (mgr (drain ?w)) = num_assets_to_load (mgr (drain ?w))
            \<longrightarrow> num_assets_loaded (mgr (check_loader_status ?w)) = 0
              \<and> num_assets_to_load (mgr (check_loader_status ?w)) = 0"
    by (simp add: check_loader_status_def poll_check_def)
  have c4: "num_assets_loaded (mgr ?w) = num_assets_to_load (mgr ?w)
            \<longrightarrow> num_assets_loaded (mgr (check_loader_status ?w)) = 0
              \<and> num_assets_to_load (mgr (check_loader_status ?w)) = 0"
  proof
    assume e: "num_assets_loaded (mgr ?w) = num_assets_to_load (mgr ?w)"
    have "0 \<le> int (length (loader_queue (mgr ?w))) + (case in_flight ?w of None \<Rightarrow> 0 | Some a \<Rightarrow> 1)"
      by (cases "in_flight ?w") simp_all
    with ok e have "int (length (loaded_queue (mgr ?w))) \<le> 0"
      unfolding counters_ok_def outstanding_def by linarith
    then have "loaded_queue (mgr ?w) = []"
      by simp
    then have "drain ?w = ?w" by (rule drain_empty)
    with e show "num_assets_loaded (mgr (check_loader_status ?w)) = 0
              \<and> num_assets_to_load (mgr (check_loader_status ?w)) = 0"
      by (simp add: check_loader_status_def poll_check_def)
  qed
  have c5: "loaded_queue (mgr ?w) = []
            \<and> num_assets_loaded (mgr ?w) = 0 \<and> num_assets_to_load (mgr ?w) = 0
            \<longrightarrow> num_assets_loaded (mgr (check_loader_status ?w)) = 0
              \<and> num_assets_to_load (mgr (check_loader_status ?w)) = 0
              \<and> num_bcp_assets_loaded (mgr (check_loader_status ?w)) = num_bcp_assets_loaded (mgr ?w)
              \<and> num_bcp_assets_to_load (mgr (check_loader_status ?w)) = num_bcp_assets_to_load (mgr ?w)"
    by (simp add: check_loader_status_def poll_check_def drain_empty)
  from c1 c2 c3 c4 c5 show ?thesis by (simp only: simp_thms)
qed


theorem counters_invariant_witness:
  "initial (new_world [0] (\<lambda>g. AssetGroup_init None []))
   \<and> num_assets_loaded
        (mgr (run [Load 0 NoCallback None, LoaderGet, LoaderPut, PollOne]
               (new_world [0] (\<lambda>g. AssetGroup_init None [])))) = 1
   \<and> num_assets_to_load
        (mgr (run [Load 0 NoCallback None, LoaderGet, LoaderPut, PollOne]
               (new_world [0] (\<lambda>g. AssetGroup_init None [])))) = 1
   \<and> num_assets_loaded
        (mgr (check_loader_status
               (run [Load 0 NoCallback None, LoaderGet, LoaderPut, PollOne]
                 (new_world [0] (\<lambda>g. AssetGroup_init None []))))) = 0
   \<and> num_assets_to_load
        (mgr (check_loader_status
               (run [Load 0 NoCallback None, LoaderGet, LoaderPut, PollOne]
                 (new_world [0] (\<lambda>g. AssetGroup_init None []))))) = 0
   \<and> loaded_queue (mgr (run [] (new_world [0] (\<lambda>g. AssetGroup_init None [])))) = []
   \<and> num_assets_loaded
        (mgr (check_loader_status (run [] (new_world [0] (\<lambda>g. AssetGroup_init None []))))) = 0
   \<and> num_assets_to_load
        (mgr (check_loader_status (run [] (new_world [0] (\<lambda>g. AssetGroup_init None []))))) = 0"
proof -
  let ?start = "new_world [0] (\<lambda>g. AssetGroup_init None [])"
  let ?w = "run [Load 0 NoCallback None, LoaderGet, LoaderPut, PollOne] ?start"
  have i: "initial ?start"
    by (simp add: initial_def new_world_def)
  have l: "num_assets_loaded (mgr ?w) = 1" and t: "num_assets_to_load (mgr ?w) = 1"
    by (simp_all add: model_defs)
  have a: "num_assets_loaded (mgr ?w) = num_assets_to_load (mgr ?w)"
    by (simp only: l t)
  from counters_invariant [OF i, of "[Load 0 NoCallback None, LoaderGet, LoaderPut, PollOne]"]
  have "num_assets_loaded (mgr ?w) = num_assets_to_load (mgr ?w)
            \<longrightarrow> num_assets_loaded (mgr (check_loader_status ?w)) = 0
              \<and> num_assets_to_load (mgr (check_loader_status ?w)) = 0"
    by (elim conjE)
  then have r1: "num_assets_loaded (mgr (check_loader_status ?w)) = 0
              \<and> num_assets_to_load (mgr (check_loader_status ?w)) = 0"
    using a by (rule mp)
  have e: "loaded_queue (mgr (run [] ?start)) = []
            \<and> num_assets_loaded (mgr (run [] ?start)) = 0
            \<and> num_assets_to_load (mgr (run [] ?start)) = 0"
    by (simp add: run_def new_world_def AssetManager_init_def)
  from counters_invariant [OF i, of "[]"]
  have "loaded_queue (mgr (run [] ?start)) = []
            \<and> num_assets_loaded (mgr (run [] ?start)) = 0
            \<and> num_assets_to_load (mgr (run [] ?start)) = 0
            \<longrightarrow> num_assets_loaded (mgr (check_loader_status (run [] ?start))) = 0
              \<and> num_assets_to_load (mgr (check_loader_status (run [] ?start))) = 0
              \<and> num_bcp_assets_loaded (mgr (check_loader_status (run [] ?start)))
                   = num_bcp_assets_loaded (mgr (run [] ?start))
              \<and> num_bcp_assets_to_load (mgr (check_loader_status (run [] ?start)))
                   = num_bcp_assets_to_load (mgr (run [] ?start))"
    by (elim conjE)
  then have r2: "num_assets_loaded (mgr (check_loader_status (run [] ?start))) = 0
              \<and> num_assets_to_load (mgr (check_loader_status (run [] ?start))) = 0
              \<and> num_bcp_assets_loaded (mgr (check_loader_status (run [] ?start)))
                   = num_bcp_assets_loaded (mgr (run [] ?start))
              \<and> num_bcp_assets_to_load (mgr (check_loader_status (run [] ?start)))
                   = num_bcp_assets_to_load (mgr (run [] ?start))"
    using e by (rule mp)
  from i l t r1 e r2 show ?thesis
    by (intro conjI) (elim conjE, assumption)+
qed

section \<open>The stored total weight\<close>








section \<open>The policy random_force_all\<close>

lemma walk_in: "walk wt v i cs = Some x \<Longrightarrow> x \<in> set cs"
  by (induction cs arbitrary: i) (auto split: if_splits)

lemma pick_weighed_random_in:
  assumes "1 \<le> tw" and "cs \<noteq> []"
  shows "\<exists>x \<in> set cs. pick_weighed_random wt tw cs v = Inr x"
proof -
  from assms(2) obtain c cs' where cs: "cs = c # cs'" by (cases cs) auto
  show ?thesis
  proof (cases "walk wt v (wt c) cs")
    case None
    have "last cs \<in> set cs" using assms(2) by simp
    moreover have "pick_weighed_random wt tw cs v = Inr (last cs)"
      using assms(1) None cs by (simp add: pick_weighed_random_def)
    ultimately show ?thesis by (rule rev_bexI)
  next
    case (Some x)
    then have "x \<in> set cs" by (rule walk_in)
    moreover have "pick_weighed_random wt tw cs v = Inr x"
      using assms(1) Some cs by (simp add: pick_weighed_random_def)
    ultimately show ?thesis by (rule rev_bexI)
  qed
qed

lemma force_all_step:
  assumes ty: "gtype g = ''random_force_all''"
    and tw: "1 \<le> total_weights g"
    and nr: "card (assets_sent g) \<noteq> length (assets g)"
    and ne: "filter (\<lambda>x. x \<notin> assets_sent g) (assets g) \<noteq> []"
  shows "\<exists>x \<in> set (assets g) - assets_sent g.
           asset g v = (Inr (Some (fst x)), g\<lparr>assets_sent := insert x (assets_sent g)\<rparr>)"
proof -
  let ?cs = "filter (\<lambda>x. x \<notin> assets_sent g) (assets g)"
  from pick_weighed_random_in [OF tw ne, of snd v]
  obtain x where x: "x \<in> set ?cs" and p: "pick_weighed_random snd (total_weights g) ?cs v = Inr x"
    by (elim bexE)
  from x have "x \<in> set (assets g) - assets_sent g" by simp
  moreover have "asset g v = (Inr (Some (fst x)), g\<lparr>assets_sent := insert x (assets_sent g)\<rparr>)"
    using ty nr p by (simp add: asset_def returned_def get_random_force_all_asset_def)
  ultimately show ?thesis by (rule rev_bexI)
qed

lemma force_all_reset:
  assumes "gtype g = ''random_force_all''" and "assets g \<noteq> []"
    and "card (assets_sent g) = length (assets g)"
  shows "asset g v = asset (g\<lparr>assets_sent := {}\<rparr>) v"
  using assms by (simp add: asset_def returned_def get_random_force_all_asset_def)

lemma force_all_partial:
  "gtype g = ''random_force_all'' \<Longrightarrow> distinct (assets g) \<Longrightarrow> 1 \<le> total_weights g \<Longrightarrow>
   assets_sent g \<subseteq> set (assets g) \<Longrightarrow>
   card (assets_sent g) + length vs \<le> length (assets g) \<Longrightarrow>
   \<exists>xs. fst (reads g vs) = map (\<lambda>x. Inr (Some (fst x))) xs
       \<and> length xs = length vs \<and> distinct xs
       \<and> set xs \<subseteq> set (assets g) - assets_sent g
       \<and> snd (reads g vs) = g\<lparr>assets_sent := assets_sent g \<union> set xs\<rparr>"
proof (induction vs arbitrary: g)
  case Nil
  have "fst (reads g []) = map (\<lambda>x. Inr (Some (fst x))) []
       \<and> length ([] :: (aref \<times> int) list) = length ([] :: int list) \<and> distinct ([] :: (aref \<times> int) list)
       \<and> set [] \<subseteq> set (assets g) - assets_sent g
       \<and> snd (reads g []) = g\<lparr>assets_sent := assets_sent g \<union> set []\<rparr>"
    by simp
  then show ?case by (rule exI)
next
  case (Cons v vs)
  let ?S = "assets_sent g"
  have fin: "finite ?S"
    using Cons.prems(4) by (rule finite_subset) simp
  have cn: "card (set (assets g)) = length (assets g)"
    using Cons.prems(2) by (rule distinct_card)
  have lt: "card ?S < length (assets g)"
    using Cons.prems(5) by simp
  then have nr: "card ?S \<noteq> length (assets g)" by simp
  have "?S \<noteq> set (assets g)"
    using lt cn by auto
  with Cons.prems(4) obtain y where "y \<in> set (assets g)" "y \<notin> ?S" by auto
  then have ne: "filter (\<lambda>x. x \<notin> ?S) (assets g) \<noteq> []"
    by (auto simp: filter_empty_conv)
  from force_all_step [OF Cons.prems(1) Cons.prems(3) nr ne, of v]
  obtain x where x: "x \<in> set (assets g) - ?S"
    and st: "asset g v = (Inr (Some (fst x)), g\<lparr>assets_sent := insert x ?S\<rparr>)"
    by (elim bexE)
  let ?g1 = "g\<lparr>assets_sent := insert x ?S\<rparr>"
  have c1: "card (assets_sent ?g1) + length vs \<le> length (assets ?g1)"
    using x fin Cons.prems(5) by simp
  have s1: "assets_sent ?g1 \<subseteq> set (assets ?g1)"
    using x Cons.prems(4) by simp
  have "\<exists>xs. fst (reads ?g1 vs) = map (\<lambda>x. Inr (Some (fst x))) xs
       \<and> length xs = length vs \<and> distinct xs
       \<and> set xs \<subseteq> set (assets ?g1) - assets_sent ?g1
       \<and> snd (reads ?g1 vs) = ?g1\<lparr>assets_sent := assets_sent ?g1 \<union> set xs\<rparr>"
    using Cons.prems(1,2,3) s1 c1 by (intro Cons.IH) simp_all
  then obtain xs where f: "fst (reads ?g1 vs) = map (\<lambda>x. Inr (Some (fst x))) xs"
    and l: "length xs = length vs" and d: "distinct xs"
    and sub: "set xs \<subseteq> set (assets ?g1) - assets_sent ?g1"
    and sn: "snd (reads ?g1 vs) = ?g1\<lparr>assets_sent := assets_sent ?g1 \<union> set xs\<rparr>"
    by (elim exE conjE)
  have r1: "fst (reads g (v # vs)) = map (\<lambda>x. Inr (Some (fst x))) (x # xs)"
    by (simp add: st f split_beta)
  have r2: "length (x # xs) = length (v # vs)"
    using l by simp
  have r3: "distinct (x # xs)"
    using d sub by auto
  have r4: "set (x # xs) \<subseteq> set (assets g) - ?S"
    using x sub by auto
  have r5: "snd (reads g (v # vs)) = g\<lparr>assets_sent := ?S \<union> set (x # xs)\<rparr>"
    by (simp add: st sn split_beta)
  from r1 r2 r3 r4 r5 show ?case
    by (intro exI [of _ "x # xs"] conjI)
qed

lemma force_all_cycle_fresh:
  assumes ty: "gtype g = ''random_force_all''"
    and di: "distinct (map fst (assets g))"
    and tw: "1 \<le> total_weights g"
    and em: "assets_sent g = {}"
    and le: "length vs = length (assets g)"
  shows "distinct (fst (reads g vs))
       \<and> set (fst (reads g vs)) = (\<lambda>x. Inr (Some (fst x))) ` set (assets g)
       \<and> snd (reads g vs) = g\<lparr>assets_sent := set (assets g)\<rparr>"
proof -
  have da: "distinct (assets g)"
    using di by (simp add: distinct_map)
  have "\<exists>xs. fst (reads g vs) = map (\<lambda>x. Inr (Some (fst x))) xs
       \<and> length xs = length vs \<and> distinct xs
       \<and> set xs \<subseteq> set (assets g) - assets_sent g
       \<and> snd (reads g vs) = g\<lparr>assets_sent := assets_sent g \<union> set xs\<rparr>"
    using ty da tw by (intro force_all_partial) (simp_all add: em le)
  then obtain xs where f: "fst (reads g vs) = map (\<lambda>x. Inr (Some (fst x))) xs"
    and l: "length xs = length vs" and d: "distinct xs"
    and sub: "set xs \<subseteq> set (assets g) - assets_sent g"
    and sn: "snd (reads g vs) = g\<lparr>assets_sent := assets_sent g \<union> set xs\<rparr>"
    by (elim exE conjE)
  have "card (set xs) = card (set (assets g))"
    using d da l le by (simp add: distinct_card)
  moreover have "set xs \<subseteq> set (assets g)" using sub by auto
  ultimately have eq: "set xs = set (assets g)"
    by (intro card_subset_eq) simp_all
  have inj: "inj_on fst (set (assets g))"
    using di by (simp add: distinct_map)
  have "inj_on (\<lambda>x. Inr (Some (fst x)) :: error + aref option) (set xs)"
    using inj unfolding eq inj_on_def by simp
  with d have r1: "distinct (fst (reads g vs))"
    by (simp add: f distinct_map)
  have r2: "set (fst (reads g vs)) = (\<lambda>x. Inr (Some (fst x))) ` set (assets g)"
    by (simp add: f eq)
  have r3: "snd (reads g vs) = g\<lparr>assets_sent := set (assets g)\<rparr>"
    by (simp add: sn em eq)
  from r1 r2 r3 show ?thesis by (intro conjI)
qed

lemma force_all_cycle:
  assumes ty: "gtype g = ''random_force_all''"
    and di: "distinct (map fst (assets g))"
    and ne: "assets g \<noteq> []"
    and tw: "1 \<le> total_weights g"
    and st: "assets_sent g = {} \<or> assets_sent g = set (assets g)"
    and le: "length vs = length (assets g)"
  shows "distinct (fst (reads g vs))
       \<and> set (fst (reads g vs)) = (\<lambda>x. Inr (Some (fst x))) ` set (assets g)
       \<and> snd (reads g vs) = g\<lparr>assets_sent := set (assets g)\<rparr>"
proof (cases "assets_sent g = {}")
  case True
  with ty di tw le show ?thesis by (intro force_all_cycle_fresh)
next
  case False
  with st have full: "assets_sent g = set (assets g)" by simp
  have da: "distinct (assets g)"
    using di by (simp add: distinct_map)
  have cd: "card (assets_sent g) = length (assets g)"
    using da by (simp add: full distinct_card)
  let ?g0 = "g\<lparr>assets_sent := {}\<rparr>"
  from le ne obtain v vs' where vs: "vs = v # vs'" by (cases vs) auto
  have "asset g v = asset ?g0 v"
    using ty ne cd by (rule force_all_reset)
  then have e: "reads g vs = reads ?g0 vs"
    by (simp add: vs)
  have "distinct (fst (reads ?g0 vs))
       \<and> set (fst (reads ?g0 vs)) = (\<lambda>x. Inr (Some (fst x))) ` set (assets ?g0)
       \<and> snd (reads ?g0 vs) = ?g0\<lparr>assets_sent := set (assets ?g0)\<rparr>"
    using ty di tw le by (intro force_all_cycle_fresh) simp_all
  then show ?thesis
    by (simp add: e)
qed

lemma reads_append:
  "reads g (vs @ ws)
     = (fst (reads g vs) @ fst (reads (snd (reads g vs)) ws), snd (reads (snd (reads g vs)) ws))"
  by (induction vs arbitrary: g) (simp_all add: split_beta)

lemma length_reads: "length (fst (reads g vs)) = length vs"
  by (induction vs arbitrary: g) (simp_all add: split_beta)


lemma force_all_init:
  "gtype (AssetGroup_init (Some ''random_force_all'') members) = ''random_force_all''"
  "assets (AssetGroup_init (Some ''random_force_all'') members) = members"
  "total_weights (AssetGroup_init (Some ''random_force_all'') members) = sum_list (map snd members)"
  "assets_sent (AssetGroup_init (Some ''random_force_all'') members) = {}"
  by (simp_all add: AssetGroup_init_def configure_return_asset_def Let_def)

lemma force_all_after_cycles:
  assumes di: "distinct (map fst members)"
    and ne: "members \<noteq> []"
    and tw: "1 \<le> sum_list (map snd members)"
  shows "c * length members \<le> length vs \<Longrightarrow>
         snd (reads (AssetGroup_init (Some ''random_force_all'') members)
                (take (c * length members) vs))
           = (AssetGroup_init (Some ''random_force_all'') members)
               \<lparr>assets_sent := (if c = 0 then {} else set members)\<rparr>"
proof (induction c)
  case 0
  let ?G = "AssetGroup_init (Some ''random_force_all'') members"
  have "?G\<lparr>assets_sent := {}\<rparr> = ?G\<lparr>assets_sent := assets_sent ?G\<rparr>"
    by (simp only: force_all_init)
  also have "\<dots> = ?G" by simp
  finally show ?case by simp
next
  case (Suc c)
  let ?G = "AssetGroup_init (Some ''random_force_all'') members"
  let ?n = "length members"
  let ?gc = "?G\<lparr>assets_sent := (if c = 0 then {} else set members)\<rparr>"
  let ?B = "take ?n (drop (c * ?n) vs)"
  have le: "c * ?n \<le> length vs" and le2: "c * ?n + ?n \<le> length vs"
    using Suc.prems by simp_all
  have gc: "snd (reads ?G (take (c * ?n) vs)) = ?gc"
    using le by (rule Suc.IH)
  have lb: "length ?B = length (assets ?gc)"
    using le2 by (simp add: force_all_init)
  have cyc: "distinct (fst (reads ?gc ?B))
       \<and> set (fst (reads ?gc ?B)) = (\<lambda>x. Inr (Some (fst x))) ` set (assets ?gc)
       \<and> snd (reads ?gc ?B) = ?gc\<lparr>assets_sent := set (assets ?gc)\<rparr>"
    using di ne tw lb by (intro force_all_cycle) (simp_all add: force_all_init)
  have "Suc c * ?n = c * ?n + ?n" by simp
  then have "take (Suc c * ?n) vs = take (c * ?n) vs @ ?B"
    by (simp only: take_add)
  then have "snd (reads ?G (take (Suc c * ?n) vs)) = snd (reads ?gc ?B)"
    by (simp only: reads_append gc snd_conv)
  also have "\<dots> = ?gc\<lparr>assets_sent := set (assets ?gc)\<rparr>"
    using cyc by (elim conjE)
  also have "\<dots> = ?G\<lparr>assets_sent := set members\<rparr>"
    by (simp add: force_all_init)
  finally show ?case by simp
qed

text \<open>
  C8, amended. A group of type \<^verbatim>\<open>random_force_all\<close> whose members are different assets
  and whose weights sum to 1 or more, read from its construction on, whatever is drawn:
  the reads of each cycle, that is reads \<open>j * n + 1\<close> to \<open>(j + 1) * n\<close> for \<open>n\<close> members,
  return every member once. At the end of a cycle all members are in the set of the
  members returned, and the read that opens the next cycle empties the set first, so that
  it holds one member after that read. For 3 members the windows are the reads 1 to 3,
  4 to 6 and so on.
\<close>

theorem force_all_cycle_windows:
  assumes di: "distinct (map fst members)"
    and ne: "members \<noteq> []"
    and tw: "1 \<le> sum_list (map snd members)"
    and le: "(j + 1) * length members \<le> length vs"
  shows "distinct (take (length members) (drop (j * length members)
            (fst (reads (AssetGroup_init (Some ''random_force_all'') members) vs))))
       \<and> set (take (length members) (drop (j * length members)
            (fst (reads (AssetGroup_init (Some ''random_force_all'') members) vs))))
           = (\<lambda>x. Inr (Some (fst x))) ` set members
       \<and> assets_sent (snd (reads (AssetGroup_init (Some ''random_force_all'') members)
                               (take ((j + 1) * length members) vs))) = set members
       \<and> card (assets_sent (snd (asset
                (snd (reads (AssetGroup_init (Some ''random_force_all'') members)
                        (take ((j + 1) * length members) vs))) v))) = 1"
proof -
  let ?G = "AssetGroup_init (Some ''random_force_all'') members"
  let ?n = "length members"
  let ?gj = "?G\<lparr>assets_sent := (if j = 0 then {} else set members)\<rparr>"
  let ?A = "take (j * ?n) vs"
  let ?B = "take ?n (drop (j * ?n) vs)"
  let ?C = "drop ?n (drop (j * ?n) vs)"
  have le1: "j * ?n \<le> length vs" and le2: "j * ?n + ?n \<le> length vs"
    using le by simp_all
  have gj: "snd (reads ?G ?A) = ?gj"
    using di ne tw le1 by (rule force_all_after_cycles)
  have lA: "length (fst (reads ?G ?A)) = j * ?n"
    using le1 by (simp add: length_reads)
  have lB: "length ?B = ?n"
    using le2 by simp
  have lrB: "length (fst (reads ?gj ?B)) = ?n"
    by (simp only: length_reads lB)
  have "?A @ (?B @ ?C) = vs" by (simp only: append_take_drop_id)
  then have "fst (reads ?G vs) = fst (reads ?G (?A @ (?B @ ?C)))" by (simp only:)
  also have "\<dots> = fst (reads ?G ?A) @ (fst (reads ?gj ?B) @ fst (reads (snd (reads ?gj ?B)) ?C))"
    by (simp only: reads_append gj fst_conv snd_conv)
  finally have "take ?n (drop (j * ?n) (fst (reads ?G vs))) = fst (reads ?gj ?B)"
    using lA lrB by simp
  moreover have cyc: "distinct (fst (reads ?gj ?B))
       \<and> set (fst (reads ?gj ?B)) = (\<lambda>x. Inr (Some (fst x))) ` set (assets ?gj)
       \<and> snd (reads ?gj ?B) = ?gj\<lparr>assets_sent := set (assets ?gj)\<rparr>"
    using di ne tw lB by (intro force_all_cycle) (simp_all add: force_all_init)
  ultimately have w1: "distinct (take ?n (drop (j * ?n) (fst (reads ?G vs))))"
    and w2: "set (take ?n (drop (j * ?n) (fst (reads ?G vs))))
               = (\<lambda>x. Inr (Some (fst x))) ` set members"
    by (simp_all add: force_all_init)
  let ?g' = "?G\<lparr>assets_sent := set members\<rparr>"
  have g': "snd (reads ?G (take ((j + 1) * ?n) vs)) = ?g'"
    using force_all_after_cycles [OF di ne tw, of "j + 1" vs] le by simp
  have w3: "assets_sent (snd (reads ?G (take ((j + 1) * ?n) vs))) = set members"
    by (simp only: g') simp
  have da: "distinct members"
    using di by (simp add: distinct_map)
  have cd: "card (assets_sent ?g') = length (assets ?g')"
    using da by (simp add: force_all_init distinct_card)
  have "asset ?g' v = asset (?g'\<lparr>assets_sent := {}\<rparr>) v"
    using ne cd by (intro force_all_reset) (simp_all add: force_all_init)
  moreover have "\<exists>x \<in> set (assets (?g'\<lparr>assets_sent := {}\<rparr>)) - assets_sent (?g'\<lparr>assets_sent := {}\<rparr>).
           asset (?g'\<lparr>assets_sent := {}\<rparr>) v
             = (Inr (Some (fst x)),
                (?g'\<lparr>assets_sent := {}\<rparr>)\<lparr>assets_sent := insert x (assets_sent (?g'\<lparr>assets_sent := {}\<rparr>))\<rparr>)"
    using ne tw by (intro force_all_step) (simp_all add: force_all_init)
  ultimately obtain x where
      "asset ?g' v = (Inr (Some (fst x)),
                (?g'\<lparr>assets_sent := {}\<rparr>)\<lparr>assets_sent := insert x (assets_sent (?g'\<lparr>assets_sent := {}\<rparr>))\<rparr>)"
    by (elim bexE) simp
  then have "card (assets_sent (snd (asset ?g' v))) = 1"
    by simp
  then have w4: "card (assets_sent (snd (asset (snd (reads ?G (take ((j + 1) * ?n) vs))) v))) = 1"
    by (simp only: g')
  from w1 w2 w3 w4 show ?thesis by (intro conjI)
qed

text \<open>
  C8, as the claim states it, fails for a window that straddles two cycles: with three
  members of weight 1 and the draws 1, 1, 1, 3 the reads are \<open>A, B, C, C\<close>, and the window
  of the reads 2 to 4 holds \<open>C\<close> twice and \<open>A\<close> not at all.
\<close>

theorem force_all_window_counterexample:
  "fst (reads (AssetGroup_init (Some ''random_force_all'') [(0, 1), (1, 1), (2, 1)]) [1, 1, 1, 3])
     = [Inr (Some 0), Inr (Some 1), Inr (Some 2), Inr (Some 2)]
   \<and> \<not> distinct (take 3 (drop 1
           (fst (reads (AssetGroup_init (Some ''random_force_all'') [(0, 1), (1, 1), (2, 1)])
                  [1, 1, 1, 3]))))"
proof -
  have r: "fst (reads (AssetGroup_init (Some ''random_force_all'') [(0, 1), (1, 1), (2, 1)])
              [1, 1, 1, 3])
     = [Inr (Some 0), Inr (Some 1), Inr (Some 2), Inr (Some 2)]"
    by (simp add: AssetGroup_init_def configure_return_asset_def asset_def returned_def
        get_random_force_all_asset_def pick_weighed_random_def Let_def)
  show ?thesis
    by (simp only: r) simp
qed

theorem force_all_cycle_windows_witness:
  "distinct (map fst [(0::aref, 1::int), (1, 1), (2, 1)])
   \<and> [(0::aref, 1::int), (1, 1), (2, 1)] \<noteq> []
   \<and> 1 \<le> sum_list (map snd [(0::aref, 1::int), (1, 1), (2, 1)])
   \<and> (1 + 1) * length [(0::aref, 1::int), (1, 1), (2, 1)] \<le> length [1::int, 1, 1, 3, 1, 1]
   \<and> distinct (take 3 (drop 3
        (fst (reads (AssetGroup_init (Some ''random_force_all'') [(0, 1), (1, 1), (2, 1)])
               [1, 1, 1, 3, 1, 1]))))
   \<and> set (take 3 (drop 3
        (fst (reads (AssetGroup_init (Some ''random_force_all'') [(0, 1), (1, 1), (2, 1)])
               [1, 1, 1, 3, 1, 1]))))
       = {Inr (Some 0), Inr (Some 1), Inr (Some 2)}"
proof -
  let ?ms = "[(0::aref, 1::int), (1, 1), (2, 1)]"
  have h1: "distinct (map fst ?ms)" by simp
  have h2: "?ms \<noteq> []" by simp
  have h3: "1 \<le> sum_list (map snd ?ms)" by simp
  have h4: "(1 + 1) * length ?ms \<le> length [1::int, 1, 1, 3, 1, 1]" by simp
  have len: "length ?ms = 3" by simp
  have img: "(\<lambda>x. Inr (Some (fst x))) ` set ?ms
               = {Inr (Some 0), Inr (Some 1), Inr (Some 2) :: error + aref option}"
    by simp
  note t = force_all_cycle_windows [OF h1 h2 h3 h4, of 0]
  from t have "distinct (take (length ?ms) (drop (1 * length ?ms)
            (fst (reads (AssetGroup_init (Some ''random_force_all'') ?ms) [1, 1, 1, 3, 1, 1]))))"
    by (elim conjE)
  moreover from t have "set (take (length ?ms) (drop (1 * length ?ms)
            (fst (reads (AssetGroup_init (Some ''random_force_all'') ?ms) [1, 1, 1, 3, 1, 1]))))
           = (\<lambda>x. Inr (Some (fst x))) ` set ?ms"
    by (elim conjE)
  ultimately have "distinct (take 3 (drop 3
            (fst (reads (AssetGroup_init (Some ''random_force_all'') ?ms) [1, 1, 1, 3, 1, 1]))))"
    and "set (take 3 (drop 3
            (fst (reads (AssetGroup_init (Some ''random_force_all'') ?ms) [1, 1, 1, 3, 1, 1]))))
           = {Inr (Some 0), Inr (Some 1), Inr (Some 2)}"
    by (simp_all only: len img nat_mult_1)
  with h1 h2 h3 h4 show ?thesis by (intro conjI)
qed

section \<open>The percentage loaded\<close>

text \<open>The exponent is the binary exponent, and the rounding moves a number by half a unit
  in the last place at most.\<close>

lemma ilog2_bounds:
  assumes "x \<noteq> 0"
  shows "2 powi (ilog2 x) \<le> \<bar>x\<bar> \<and> \<bar>x\<bar> < 2 powi (ilog2 x + 1)"
proof -
  obtain p q where pq: "quotient_of \<bar>x\<bar> = (p, q)" by (cases "quotient_of \<bar>x\<bar>")
  then have q: "0 < q" by (rule quotient_of_denom_pos)
  from pq have x: "\<bar>x\<bar> = of_int p / of_int q"
    by (rule quotient_of_div)
  have "0 < \<bar>x\<bar>" using assms by simp
  with x q have p: "0 < p"
    by (simp add: zero_less_divide_iff)
  let ?bp = "bitlen p" and ?bq = "bitlen q"
  from bitlen_bounds [OF p] have p1: "2 ^ nat (?bp - 1) \<le> p" and p2: "p < 2 ^ nat ?bp"
    by simp_all
  from bitlen_bounds [OF q] have q1: "2 ^ nat (?bq - 1) \<le> q" and q2: "q < 2 ^ nat ?bq"
    by simp_all
  have bp: "1 \<le> ?bp" using p by (simp add: bitlen_alt_def)
  have bq: "1 \<le> ?bq" using q by (simp add: bitlen_alt_def)
  have P1: "(2::rat) powi (?bp - 1) \<le> of_int p"
  proof -
    have "(of_int (2 ^ nat (?bp - 1)) :: rat) \<le> of_int p"
      using p1 by (simp only: of_int_le_iff)
    moreover have "(2::rat) powi (?bp - 1) = 2 ^ nat (?bp - 1)"
      using bp by (simp add: power_int_def)
    ultimately show ?thesis by simp
  qed
  have P2: "of_int p < (2::rat) powi ?bp"
  proof -
    have "(of_int p :: rat) < of_int (2 ^ nat ?bp)"
      using p2 by (simp only: of_int_less_iff)
    moreover have "(2::rat) powi ?bp = 2 ^ nat ?bp"
      using bp by (simp add: power_int_def)
    ultimately show ?thesis by simp
  qed
  have Q1: "(2::rat) powi (?bq - 1) \<le> of_int q"
  proof -
    have "(of_int (2 ^ nat (?bq - 1)) :: rat) \<le> of_int q"
      using q1 by (simp only: of_int_le_iff)
    moreover have "(2::rat) powi (?bq - 1) = 2 ^ nat (?bq - 1)"
      using bq by (simp add: power_int_def)
    ultimately show ?thesis by simp
  qed
  have Q2: "of_int q < (2::rat) powi ?bq"
  proof -
    have "(of_int q :: rat) < of_int (2 ^ nat ?bq)"
      using q2 by (simp only: of_int_less_iff)
    moreover have "(2::rat) powi ?bq = 2 ^ nat ?bq"
      using bq by (simp add: power_int_def)
    ultimately show ?thesis by simp
  qed
  have qpos: "(0::rat) < of_int q" using q by simp
  have ppos: "(0::rat) < of_int p" using p by simp
  have lo: "(2::rat) powi (?bp - ?bq - 1) \<le> \<bar>x\<bar>"
  proof -
    have "(2::rat) powi (?bp - ?bq - 1) * of_int q \<le> 2 powi (?bp - ?bq - 1) * 2 powi ?bq"
      using Q2 by (intro mult_left_mono) simp_all
    also have "\<dots> = 2 powi (?bp - 1)"
      by (simp add: power_int_add [symmetric])
    also have "\<dots> \<le> of_int p" by (rule P1)
    finally show ?thesis
      using qpos by (simp add: x pos_le_divide_eq)
  qed
  have hi: "\<bar>x\<bar> < (2::rat) powi (?bp - ?bq + 1)"
  proof -
    have "of_int p < (2::rat) powi ?bp" by (rule P2)
    also have "\<dots> = 2 powi (?bp - ?bq + 1) * 2 powi (?bq - 1)"
      by (simp add: power_int_add [symmetric])
    also have "\<dots> \<le> 2 powi (?bp - ?bq + 1) * of_int q"
      using Q1 by (intro mult_left_mono) simp_all
    finally show ?thesis
      using qpos by (simp add: x pos_divide_less_eq)
  qed
  show ?thesis
  proof (cases "\<bar>x\<bar> < 2 powi (?bp - ?bq)")
    case True
    then have "ilog2 x = ?bp - ?bq - 1"
      by (simp add: ilog2_def pq)
    with True lo show ?thesis by simp
  next
    case False
    then have "ilog2 x = ?bp - ?bq"
      by (simp add: ilog2_def pq)
    with False hi show ?thesis by simp
  qed
qed


lemma round_half_even_nearest: "\<bar>of_int (round_half_even z) - z\<bar> \<le> 1 / 2"
proof -
  have "of_int \<lfloor>z\<rfloor> \<le> z" and "z < of_int \<lfloor>z\<rfloor> + 1"
    by linarith+
  then show ?thesis
    by (auto simp: round_half_even_def Let_def abs_le_iff)
qed

lemma to_double_nearest:
  assumes "to_double x = Some y"
  shows "\<bar>y - x\<bar> \<le> 2 powi (max (ilog2 x) (- 1022) - 53)"
proof (cases "x = 0")
  case True
  with assms show ?thesis by (simp add: to_double_def)
next
  case False
  let ?u = "(2::rat) powi (max (ilog2 x) (- 1022) - 52)"
  have u: "0 < ?u" by simp
  from assms False have y: "y = of_int (round_half_even (x / ?u)) * ?u"
    by (simp add: to_double_def Let_def split: if_splits)
  have "y - x = (of_int (round_half_even (x / ?u)) - x / ?u) * ?u"
    using u by (simp add: y left_diff_distrib)
  then have "\<bar>y - x\<bar> = \<bar>of_int (round_half_even (x / ?u)) - x / ?u\<bar> * \<bar>?u\<bar>"
    by (simp only: abs_mult)
  also have "\<bar>?u\<bar> = ?u"
    using u by (simp only: abs_of_pos)
  finally have "\<bar>y - x\<bar> = \<bar>of_int (round_half_even (x / ?u)) - x / ?u\<bar> * ?u" .
  also have "\<dots> \<le> (1 / 2) * ?u"
    using u round_half_even_nearest [of "x / ?u"] by (intro mult_right_mono) simp_all
  also have "\<dots> = 2 powi (max (ilog2 x) (- 1022) - 53)"
    by (simp add: power_int_diff)
  finally show ?thesis .
qed

lemma float_round_not_zero_division: "float_round x \<noteq> Inl ZeroDivisionError"
  by (cases x) (simp_all add: float_round_def)

lemma percent_expr_zero_division:
  "percent_expr n d = Inl ZeroDivisionError \<longleftrightarrow> d = 0"
proof (cases "d = 0")
  case True
  then show ?thesis by (simp add: percent_expr_def int_truediv_def)
next
  case False
  show ?thesis
  proof (cases "to_double (of_int n / of_int d)")
    case None
    with False show ?thesis by (simp add: percent_expr_def int_truediv_def)
  next
    case (Some q)
    with False show ?thesis
      by (simp add: percent_expr_def int_truediv_def float_round_not_zero_division)
  qed
qed

text \<open>
  A number below \<open>2 powi (k + 1)\<close> in absolute value, for an exponent \<open>k\<close> in the range of
  the normal numbers, has a binary64 value, and the two differ by \<open>2 powi (k - 53)\<close> at most.
\<close>

lemma ilog2_zero: "ilog2 0 = - 2"
  by code_simp

lemma ilog2_less:
  assumes "x \<noteq> 0" and "\<bar>x\<bar> < 2 powi k"
  shows "ilog2 x < k"
proof (rule ccontr)
  assume "\<not> ilog2 x < k"
  then have "k \<le> ilog2 x" by simp
  then have "(2::rat) powi k \<le> 2 powi ilog2 x"
    by (intro power_int_increasing) simp_all
  moreover from ilog2_bounds [OF assms(1)] assms(2) have "(2::rat) powi ilog2 x < 2 powi k"
    by linarith
  ultimately show False by simp
qed

lemma quantum_nearest:
  assumes u: "(0::rat) < u"
  shows "\<bar>of_int (round_half_even (x / u)) * u - x\<bar> \<le> u / 2"
proof -
  have "of_int (round_half_even (x / u)) * u - x = (of_int (round_half_even (x / u)) - x / u) * u"
    using u by (simp add: left_diff_distrib)
  then have "\<bar>of_int (round_half_even (x / u)) * u - x\<bar>
               = \<bar>of_int (round_half_even (x / u)) - x / u\<bar> * \<bar>u\<bar>"
    by (simp only: abs_mult)
  also have "\<bar>u\<bar> = u"
    using u by (simp only: abs_of_pos)
  finally have "\<bar>of_int (round_half_even (x / u)) * u - x\<bar>
                  = \<bar>of_int (round_half_even (x / u)) - x / u\<bar> * u" .
  also have "\<dots> \<le> (1 / 2) * u"
    using u round_half_even_nearest [of "x / u"] by (intro mult_right_mono) simp_all
  finally show ?thesis by simp
qed

lemma to_double_total:
  assumes x: "\<bar>x\<bar> < 2 powi (k + 1)" and k1: "- 1022 \<le> k" and k2: "k \<le> 1021"
  shows "\<exists>y. to_double x = Some y \<and> \<bar>y - x\<bar> \<le> 2 powi (k - 53)"
proof (cases "x = 0")
  case True
  then show ?thesis by (simp add: to_double_def)
next
  case False
  let ?e = "max (ilog2 x) (- 1022)"
  let ?u = "(2::rat) powi (?e - 52)"
  let ?y = "of_int (round_half_even (x / ?u)) * ?u"
  have u: "0 < ?u" by simp
  have e: "?e \<le> k"
    using ilog2_less [OF False x] k1 by simp
  have "\<bar>?y - x\<bar> \<le> ?u / 2"
    using u by (rule quantum_nearest)
  also have "?u / 2 = 2 powi (?e - 53)"
    by (simp add: power_int_diff)
  also have "\<dots> \<le> 2 powi (k - 53)"
    using e by (intro power_int_increasing) simp_all
  finally have err: "\<bar>?y - x\<bar> \<le> 2 powi (k - 53)" .
  have "(2::rat) powi (k - 53) \<le> 2 powi (k + 1)"
    by (intro power_int_increasing) simp_all
  with err x have "\<bar>?y\<bar> < 2 powi (k + 1) + 2 powi (k + 1)"
    by linarith
  also have "\<dots> = 2 powi (k + 2)"
    by (simp add: power_int_add)
  finally have y: "\<bar>?y\<bar> < 2 powi (k + 2)" .
  have "ilog2 ?y < 1024"
  proof (cases "?y = 0")
    case True
    then show ?thesis by (simp only: ilog2_zero)
  next
    case False
    from ilog2_less [OF False y] k2 show ?thesis by simp
  qed
  then have "to_double x = Some ?y"
    using False by (simp add: to_double_def Let_def)
  with err show ?thesis by blast
qed

text \<open>An integer within one half of a number that is not halfway between two integers is
  the rounding of that number.\<close>

lemma nearest_unique:
  assumes r: "\<bar>of_int r - t\<bar> \<le> 1 / 2" and t: "frac t \<noteq> 1 / 2"
  shows "round_half_even t = r"
proof -
  let ?f = "\<lfloor>t\<rfloor>"
  have f1: "of_int ?f \<le> t" and f2: "t < of_int ?f + 1"
    by linarith+
  from t have ne: "t - of_int ?f \<noteq> 1 / 2" by (simp add: frac_def)
  show ?thesis
  proof (cases "t - of_int ?f < 1 / 2")
    case True
    from r True f1 have "(of_int r :: rat) < of_int ?f + 1" and "(of_int ?f :: rat) - 1 < of_int r"
      by linarith+
    then have "(of_int r :: rat) < of_int (?f + 1)" and "(of_int (?f - 1) :: rat) < of_int r"
      by simp_all
    then have "r < ?f + 1" and "?f - 1 < r"
      by (simp_all only: of_int_less_iff)
    then have "r = ?f" by simp
    with True show ?thesis by (simp add: round_half_even_def Let_def)
  next
    case False
    with ne have gt: "1 / 2 < t - of_int ?f" by simp
    from r gt f2 have "(of_int r :: rat) < of_int ?f + 2" and "(of_int ?f :: rat) < of_int r"
      by linarith+
    then have "(of_int r :: rat) < of_int (?f + 2)" and "(of_int ?f :: rat) < of_int r"
      by simp_all
    then have "r < ?f + 2" and "?f < r"
      by (simp_all only: of_int_less_iff)
    then have "r = ?f + 1" by simp
    with gt show ?thesis by (simp add: round_half_even_def Let_def)
  qed
qed

text \<open>
  For \<open>0 \<le> n \<le> d\<close> and \<open>0 < d \<le> 2 ^ 44\<close> the expression raises nothing. The quotient is
  off by \<open>2 powi - 53\<close> at most and the product by \<open>2 powi - 47\<close> more, so the result \<open>r\<close> is
  within \<open>1 / 2 + 164 / 2 ^ 53\<close> of \<open>100 * n / d\<close>; and \<open>2 * d * r - 200 * n\<close> is an integer of
  absolute value below \<open>d + 1\<close>, hence \<open>d\<close> at most.
\<close>

lemma percent_expr_near:
  assumes n0: "0 \<le> n" and nd: "n \<le> d" and d0: "0 < d" and dmax: "d \<le> 2 ^ 44"
  shows "\<exists>r. percent_expr n d = Inr r \<and> \<bar>of_int r - 100 * of_int n / of_int d\<bar> \<le> (1 / 2 :: rat)"
proof -
  let ?D = "of_int d :: rat"
  let ?x = "of_int n / ?D"
  have D: "0 < ?D" using d0 by simp
  have x0: "0 \<le> ?x" using n0 D by simp
  have x1: "?x \<le> 1" using nd D by (simp add: divide_le_eq_1)
  have "\<bar>?x\<bar> < 2 powi (0 + 1)" using x0 x1 by simp
  from to_double_total [OF this] obtain q
    where q: "to_double ?x = Some q" and qe: "\<bar>q - ?x\<bar> \<le> 2 powi (0 - 53)"
    by auto
  have p53: "(2::rat) powi (0 - 53) = 1 / 9007199254740992"
    by (simp add: power_int_minus field_simps)
  have p47: "(2::rat) powi (6 - 53) = 1 / 140737488355328"
    by (simp add: power_int_minus field_simps)
  from qe have "\<bar>q - ?x\<bar> \<le> 1 / 9007199254740992"
    by (simp only: p53)
  with x0 x1 have "\<bar>q * 100\<bar> < 128"
    by linarith
  then have "\<bar>q * of_int 100\<bar> < 2 powi (6 + 1)" by simp
  from to_double_total [OF this] obtain p
    where p: "to_double (q * of_int 100) = Some p" and pe: "\<bar>p - q * of_int 100\<bar> \<le> 2 powi (6 - 53)"
    by auto
  let ?r = "round_half_even p"
  let ?t = "100 * of_int n / ?D"
  have pr: "percent_expr n d = Inr ?r"
    using d0 q p by (simp add: percent_expr_def int_truediv_def float_mul_def float_round_def)
  have re: "\<bar>of_int ?r - p\<bar> \<le> 1 / 2" by (rule round_half_even_nearest)
  have t: "?t = 100 * ?x" by simp
  from qe have qe': "\<bar>q - ?x\<bar> \<le> 1 / 9007199254740992"
    by (simp only: p53)
  from pe have pe': "\<bar>p - q * 100\<bar> \<le> 1 / 140737488355328"
    by (simp add: p47)
  have b: "\<bar>of_int ?r - ?t\<bar> \<le> 1 / 2 + 41 / 2251799813685248"
    unfolding t using re pe' qe' by linarith
  define N where "N = 2 * d * ?r - 200 * n"
  have N: "(of_int N :: rat) = (2 * ?D) * (of_int ?r - ?t)"
    using D by (simp add: N_def field_simps)
  have "\<bar>(2 * ?D) * (of_int ?r - ?t)\<bar> = \<bar>2 * ?D\<bar> * \<bar>of_int ?r - ?t\<bar>"
    by (rule abs_mult)
  also have "\<bar>2 * ?D\<bar> = 2 * ?D"
    using D by simp
  finally have A: "(of_int \<bar>N\<bar> :: rat) = (2 * ?D) * \<bar>of_int ?r - ?t\<bar>"
    by (simp only: of_int_abs N)
  have "(2 * ?D) * \<bar>of_int ?r - ?t\<bar> \<le> (2 * ?D) * (1 / 2 + 41 / 2251799813685248)"
    using D b by (intro mult_left_mono) simp_all
  also have "\<dots> = ?D + ?D * (41 / 1125899906842624)"
    by (simp add: field_simps)
  also have "\<dots> \<le> ?D + 2 ^ 44 * (41 / 1125899906842624)"
  proof -
    have "?D \<le> of_int (2 ^ 44)" using dmax by (simp only: of_int_le_iff)
    then show ?thesis by simp
  qed
  also have "\<dots> < ?D + 1" by simp
  finally have "(of_int \<bar>N\<bar> :: rat) < ?D + 1" by (simp only: A)
  then have "(of_int \<bar>N\<bar> :: rat) < of_int (d + 1)" by simp
  then have "\<bar>N\<bar> < d + 1" by (simp only: of_int_less_iff)
  then have "\<bar>N\<bar> \<le> d" by simp
  then have "(of_int \<bar>N\<bar> :: rat) \<le> ?D" by (simp only: of_int_le_iff)
  then have "(2 * ?D) * \<bar>of_int ?r - ?t\<bar> \<le> ?D"
    by (simp only: A)
  also have "?D = (2 * ?D) * (1 / 2)" by simp
  finally have "(2 * ?D) * \<bar>of_int ?r - ?t\<bar> \<le> (2 * ?D) * (1 / 2)" .
  moreover have "0 < 2 * ?D" using D by simp
  ultimately have "\<bar>of_int ?r - ?t\<bar> \<le> 1 / 2"
    by (simp only: mult_le_cancel_left_pos)
  with pr show ?thesis by blast
qed


lemma loading_percent_zero:
  assumes "num_assets_to_load m + num_bcp_assets_to_load m = 0"
  shows "loading_percent m = Inr 100"
proof -
  from assms
  have "percent_expr (num_assets_loaded m + num_bcp_assets_loaded m)
          (num_assets_to_load m + num_bcp_assets_to_load m) = Inl ZeroDivisionError"
    by (simp only: percent_expr_zero_division)
  then show ?thesis by (simp add: loading_percent_def)
qed

lemma loading_percent_nonzero:
  assumes "num_assets_to_load m + num_bcp_assets_to_load m \<noteq> 0"
  shows "loading_percent m
           = percent_expr (num_assets_loaded m + num_bcp_assets_loaded m)
               (num_assets_to_load m + num_bcp_assets_to_load m)"
proof -
  let ?n = "num_assets_loaded m + num_bcp_assets_loaded m"
  let ?d = "num_assets_to_load m + num_bcp_assets_to_load m"
  from assms have ne: "percent_expr ?n ?d \<noteq> Inl ZeroDivisionError"
    by (simp only: percent_expr_zero_division not_False_eq_True)
  show ?thesis
  proof (cases "percent_expr ?n ?d")
    case (Inl e)
    with ne have "e \<noteq> ZeroDivisionError" by simp
    with Inl show ?thesis by (cases e) (simp_all add: loading_percent_def)
  next
    case (Inr r)
    then show ?thesis by (simp add: loading_percent_def)
  qed
qed

lemma percent_range:
  assumes n0: "0 \<le> n" and nd: "n \<le> d" and d0: "0 < d"
    and r: "\<bar>of_int r - 100 * of_int n / of_int d\<bar> \<le> (1 / 2 :: rat)"
  shows "0 \<le> r \<and> r \<le> 100"
proof -
  let ?t = "100 * of_int n / of_int d :: rat"
  have D: "(0::rat) < of_int d" using d0 by simp
  have "0 \<le> ?t" using n0 D by simp
  moreover have "(of_int n :: rat) \<le> of_int d" using nd by (simp only: of_int_le_iff)
  then have "?t \<le> 100" using D by (simp add: divide_le_eq)
  ultimately have "(- 1 :: rat) < of_int r" and "(of_int r :: rat) < 101"
    using r by linarith+
  then have "(of_int (- 1) :: rat) < of_int r" and "(of_int r :: rat) < of_int 101"
    by simp_all
  then have "- 1 < r" and "r < 101" by (simp_all only: of_int_less_iff)
  then show ?thesis by simp
qed

text \<open>
  C5, as the claim states it with the quotient and the product of the numbers themselves,
  fails: for 23 loaded of 40 the percentage is 57.5, which rounds to 58, and
  \<^verbatim>\<open>loading_percent\<close> is 57, since the float \<^verbatim>\<open>23 / 40 * 100\<close> is 57.49999999999999.
\<close>

theorem loading_percent_counterexample:
  "loading_percent (AssetManager_init\<lparr>num_assets_loaded := 23, num_assets_to_load := 40\<rparr>) = Inr 57
   \<and> loading_percent_spec (AssetManager_init\<lparr>num_assets_loaded := 23, num_assets_to_load := 40\<rparr>)
       = Inr 58"
proof -
  let ?m = "AssetManager_init\<lparr>num_assets_loaded := 23, num_assets_to_load := 40\<rparr>"
  have n: "num_assets_loaded ?m + num_bcp_assets_loaded ?m = 23"
    and d: "num_assets_to_load ?m + num_bcp_assets_to_load ?m = 40"
    by (simp_all add: AssetManager_init_def)
  have ev: "percent_expr 23 40 = Inr 57"
    by code_simp
  have ex: "round_half_even (of_int 23 / of_int 40 * 100) = 58"
    by code_simp
  have "loading_percent ?m = Inr 57"
    by (simp only: loading_percent_def n d ev) simp
  moreover have "loading_percent_spec ?m = Inr 58"
    by (simp only: loading_percent_spec_def Let_def n d ex) simp
  ultimately show ?thesis by (intro conjI)
qed

text \<open>
  C5, amended. \<^verbatim>\<open>loading_percent\<close> is 100 when
  \<open>num_assets_to_load + num_bcp_assets_to_load\<close> is 0, and otherwise what
  \<^verbatim>\<open>round((num_assets_loaded + num_bcp_assets_loaded) / (num_assets_to_load + num_bcp_assets_to_load) * 100)\<close>
  is in the arithmetic of binary64 floats, an \<^verbatim>\<open>OverflowError\<close> of that expression
  included. When the loaded count is between 0 and the count to load, and that is between
  1 and \<open>2 ^ 44\<close>, the result is an integer from 0 to 100 within one half of the percentage
  \<open>100 * loaded / to_load\<close>; so it is the rounding of the percentage unless the percentage is
  halfway between two integers, where it is one of the two.
\<close>

theorem loading_percent_formula:
  "(num_assets_to_load m + num_bcp_assets_to_load m = 0 \<longrightarrow> loading_percent m = Inr 100)
   \<and> (num_assets_to_load m + num_bcp_assets_to_load m \<noteq> 0 \<longrightarrow>
        loading_percent m
          = percent_expr (num_assets_loaded m + num_bcp_assets_loaded m)
              (num_assets_to_load m + num_bcp_assets_to_load m))
   \<and> (0 \<le> num_assets_loaded m + num_bcp_assets_loaded m
        \<and> num_assets_loaded m + num_bcp_assets_loaded m
              \<le> num_assets_to_load m + num_bcp_assets_to_load m
        \<and> 0 < num_assets_to_load m + num_bcp_assets_to_load m
        \<and> num_assets_to_load m + num_bcp_assets_to_load m \<le> 2 ^ 44 \<longrightarrow>
        (\<exists>r. loading_percent m = Inr r \<and> 0 \<le> r \<and> r \<le> 100
           \<and> \<bar>of_int r
                 - 100 * of_int (num_assets_loaded m + num_bcp_assets_loaded m)
                     / of_int (num_assets_to_load m + num_bcp_assets_to_load m)\<bar>
               \<le> (1 / 2 :: rat))
        \<and> (frac (of_int (num_assets_loaded m + num_bcp_assets_loaded m)
                    / of_int (num_assets_to_load m + num_bcp_assets_to_load m) * 100 :: rat)
               \<noteq> 1 / 2 \<longrightarrow>
             loading_percent m = loading_percent_spec m))"
proof -
  let ?n = "num_assets_loaded m + num_bcp_assets_loaded m"
  let ?d = "num_assets_to_load m + num_bcp_assets_to_load m"
  let ?t = "100 * of_int ?n / of_int ?d :: rat"
  have z: "?d = 0 \<longrightarrow> loading_percent m = Inr 100"
    by (intro impI loading_percent_zero)
  have nz: "?d \<noteq> 0 \<longrightarrow> loading_percent m = percent_expr ?n ?d"
    by (intro impI loading_percent_nonzero)
  let ?H = "0 \<le> ?n \<and> ?n \<le> ?d \<and> 0 < ?d \<and> ?d \<le> 2 ^ 44"
  let ?C = "(\<exists>r. loading_percent m = Inr r \<and> 0 \<le> r \<and> r \<le> 100
                  \<and> \<bar>of_int r - ?t\<bar> \<le> (1 / 2 :: rat))
              \<and> (frac (of_int ?n / of_int ?d * 100 :: rat) \<noteq> 1 / 2 \<longrightarrow>
                   loading_percent m = loading_percent_spec m)"
  have near: ?C if h: ?H
  proof -
    from h have n0: "0 \<le> ?n" and nd: "?n \<le> ?d" and d0: "0 < ?d" and dmax: "?d \<le> 2 ^ 44"
      by simp_all
    from percent_expr_near [OF n0 nd d0 dmax] obtain r
      where pr: "percent_expr ?n ?d = Inr r" and re: "\<bar>of_int r - ?t\<bar> \<le> (1 / 2 :: rat)"
      by (elim exE conjE)
    from d0 have "?d \<noteq> 0" by simp
    then have "loading_percent m = percent_expr ?n ?d"
      by (rule loading_percent_nonzero)
    with pr have lp: "loading_percent m = Inr r"
      by simp
    from percent_range [OF n0 nd d0 re] have rg: "0 \<le> r \<and> r \<le> 100" .
    have ex: "\<exists>r. loading_percent m = Inr r \<and> 0 \<le> r \<and> r \<le> 100
                \<and> \<bar>of_int r - ?t\<bar> \<le> (1 / 2 :: rat)"
      using lp rg re by blast
    have sp: "loading_percent m = loading_percent_spec m"
      if "frac (of_int ?n / of_int ?d * 100 :: rat) \<noteq> 1 / 2"
    proof -
      have t: "(of_int ?n / of_int ?d * 100 :: rat) = ?t" by simp
      from that have "frac ?t \<noteq> 1 / 2" unfolding t .
      with re have "round_half_even ?t = r" by (rule nearest_unique)
      then have "round_half_even (of_int ?n / of_int ?d * 100) = r" unfolding t .
      with \<open>?d \<noteq> 0\<close> have "loading_percent_spec m = Inr r"
        by (simp add: loading_percent_spec_def Let_def)
      with lp show ?thesis by simp
    qed
    from ex sp show ?thesis by (intro conjI impI)
  qed
  have "?H \<longrightarrow> ?C"
    by (rule impI) (rule near)
  with z nz show ?thesis by (intro conjI)
qed

theorem loading_percent_formula_witness:
  "num_assets_to_load AssetManager_init + num_bcp_assets_to_load AssetManager_init = 0
   \<and> loading_percent AssetManager_init = Inr 100
   \<and> num_assets_loaded (AssetManager_init\<lparr>num_assets_loaded := 23, num_assets_to_load := 40\<rparr>)
       + num_bcp_assets_loaded (AssetManager_init\<lparr>num_assets_loaded := 23, num_assets_to_load := 40\<rparr>)
       = 23
   \<and> num_assets_to_load (AssetManager_init\<lparr>num_assets_loaded := 23, num_assets_to_load := 40\<rparr>)
       + num_bcp_assets_to_load (AssetManager_init\<lparr>num_assets_loaded := 23, num_assets_to_load := 40\<rparr>)
       = 40
   \<and> loading_percent (AssetManager_init\<lparr>num_assets_loaded := 23, num_assets_to_load := 40\<rparr>) = Inr 57
   \<and> (\<exists>r. loading_percent (AssetManager_init\<lparr>num_assets_loaded := 23, num_assets_to_load := 40\<rparr>)
              = Inr r
          \<and> 0 \<le> r \<and> r \<le> 100 \<and> \<bar>of_int r - 100 * of_int 23 / of_int 40\<bar> \<le> (1 / 2 :: rat))
   \<and> num_assets_loaded (AssetManager_init\<lparr>num_assets_loaded := 1, num_assets_to_load := 3\<rparr>)
       + num_bcp_assets_loaded (AssetManager_init\<lparr>num_assets_loaded := 1, num_assets_to_load := 3\<rparr>)
       = 1
   \<and> num_assets_to_load (AssetManager_init\<lparr>num_assets_loaded := 1, num_assets_to_load := 3\<rparr>)
       + num_bcp_assets_to_load (AssetManager_init\<lparr>num_assets_loaded := 1, num_assets_to_load := 3\<rparr>)
       = 3
   \<and> frac (of_int 1 / of_int 3 * 100 :: rat) = 1 / 3
   \<and> loading_percent (AssetManager_init\<lparr>num_assets_loaded := 1, num_assets_to_load := 3\<rparr>)
       = loading_percent_spec (AssetManager_init\<lparr>num_assets_loaded := 1, num_assets_to_load := 3\<rparr>)
   \<and> loading_percent_spec (AssetManager_init\<lparr>num_assets_loaded := 1, num_assets_to_load := 3\<rparr>)
       = Inr 33"
proof -
  let ?m = "AssetManager_init\<lparr>num_assets_loaded := 23, num_assets_to_load := 40\<rparr>"
  let ?k = "AssetManager_init\<lparr>num_assets_loaded := 1, num_assets_to_load := 3\<rparr>"
  have z: "num_assets_to_load AssetManager_init + num_bcp_assets_to_load AssetManager_init = 0"
    by (simp add: AssetManager_init_def)
  have n: "num_assets_loaded ?m + num_bcp_assets_loaded ?m = 23"
    and d: "num_assets_to_load ?m + num_bcp_assets_to_load ?m = 40"
    by (simp_all add: AssetManager_init_def)
  have n3: "num_assets_loaded ?k + num_bcp_assets_loaded ?k = 1"
    and d3: "num_assets_to_load ?k + num_bcp_assets_to_load ?k = 3"
    by (simp_all add: AssetManager_init_def)
  have ev: "percent_expr 23 40 = Inr 57"
    by code_simp
  have fr: "frac (of_int 1 / of_int 3 * 100 :: rat) = 1 / 3"
  proof -
    have "\<lfloor>100 / 3 :: rat\<rfloor> = 33" by (simp add: floor_unique)
    then show ?thesis by (simp add: frac_def)
  qed
  have sp: "loading_percent_spec ?k = Inr 33"
    by code_simp
  note t0 = loading_percent_formula [of AssetManager_init]
  note t1 = loading_percent_formula [of ?m]
  note t3 = loading_percent_formula [of ?k]
  from t0 have "num_assets_to_load AssetManager_init + num_bcp_assets_to_load AssetManager_init = 0
          \<longrightarrow> loading_percent AssetManager_init = Inr 100"
    by (elim conjE)
  then have r0: "loading_percent AssetManager_init = Inr 100"
    using z by (rule mp)
  from t1 have "num_assets_to_load ?m + num_bcp_assets_to_load ?m \<noteq> 0 \<longrightarrow>
        loading_percent ?m
          = percent_expr (num_assets_loaded ?m + num_bcp_assets_loaded ?m)
              (num_assets_to_load ?m + num_bcp_assets_to_load ?m)"
    by (elim conjE)
  then have "loading_percent ?m = percent_expr 23 40"
    by (simp only: n d)
  then have r1: "loading_percent ?m = Inr 57"
    by (simp only: ev)
  from t1 have "0 \<le> num_assets_loaded ?m + num_bcp_assets_loaded ?m
        \<and> num_assets_loaded ?m + num_bcp_assets_loaded ?m
              \<le> num_assets_to_load ?m + num_bcp_assets_to_load ?m
        \<and> 0 < num_assets_to_load ?m + num_bcp_assets_to_load ?m
        \<and> num_assets_to_load ?m + num_bcp_assets_to_load ?m \<le> 2 ^ 44 \<longrightarrow>
        (\<exists>r. loading_percent ?m = Inr r \<and> 0 \<le> r \<and> r \<le> 100
           \<and> \<bar>of_int r
                 - 100 * of_int (num_assets_loaded ?m + num_bcp_assets_loaded ?m)
                     / of_int (num_assets_to_load ?m + num_bcp_assets_to_load ?m)\<bar>
               \<le> (1 / 2 :: rat))
        \<and> (frac (of_int (num_assets_loaded ?m + num_bcp_assets_loaded ?m)
                    / of_int (num_assets_to_load ?m + num_bcp_assets_to_load ?m) * 100 :: rat)
               \<noteq> 1 / 2 \<longrightarrow>
             loading_percent ?m = loading_percent_spec ?m)"
    by (elim conjE)
  then have r2: "\<exists>r. loading_percent ?m = Inr r \<and> 0 \<le> r \<and> r \<le> 100
           \<and> \<bar>of_int r - 100 * of_int 23 / of_int 40\<bar> \<le> (1 / 2 :: rat)"
    by (simp only: n d) simp
  from t3 have "0 \<le> num_assets_loaded ?k + num_bcp_assets_loaded ?k
        \<and> num_assets_loaded ?k + num_bcp_assets_loaded ?k
              \<le> num_assets_to_load ?k + num_bcp_assets_to_load ?k
        \<and> 0 < num_assets_to_load ?k + num_bcp_assets_to_load ?k
        \<and> num_assets_to_load ?k + num_bcp_assets_to_load ?k \<le> 2 ^ 44 \<longrightarrow>
        (\<exists>r. loading_percent ?k = Inr r \<and> 0 \<le> r \<and> r \<le> 100
           \<and> \<bar>of_int r
                 - 100 * of_int (num_assets_loaded ?k + num_bcp_assets_loaded ?k)
                     / of_int (num_assets_to_load ?k + num_bcp_assets_to_load ?k)\<bar>
               \<le> (1 / 2 :: rat))
        \<and> (frac (of_int (num_assets_loaded ?k + num_bcp_assets_loaded ?k)
                    / of_int (num_assets_to_load ?k + num_bcp_assets_to_load ?k) * 100 :: rat)
               \<noteq> 1 / 2 \<longrightarrow>
             loading_percent ?k = loading_percent_spec ?k)"
    by (elim conjE)
  then have "frac (of_int 1 / of_int 3 * 100 :: rat) \<noteq> 1 / 2 \<longrightarrow>
             loading_percent ?k = loading_percent_spec ?k"
    by (simp only: n3 d3) simp
  then have r3: "loading_percent ?k = loading_percent_spec ?k"
    by (simp only: fr)
  from z r0 n d r1 r2 n3 d3 fr r3 sp show ?thesis by (intro conjI)
qed

end
